theory Spec2Isabelle
  imports Main "HOL-Library.Word"
begin

unbundle bit_operations_syntax

section \<open>Tuple codec of access/common: heaptuple.c and indextuple.c\<close>

text \<open>
  The development embeds the routines of \<^verbatim>\<open>heaptuple.c\<close> and \<^verbatim>\<open>indextuple.c\<close>.
  The header files (\<^verbatim>\<open>c.h\<close>, \<^verbatim>\<open>htup.h\<close>, \<^verbatim>\<open>itup.h\<close>, \<^verbatim>\<open>tupmacs.h\<close>, \<^verbatim>\<open>heapam.h\<close>)
  are not part of the source tree at hand; every macro and constant taken from them is
  introduced by a definition whose comment starts with "Modelled from the spec".

  Conventions of the model:
  \<^item> \<^verbatim>\<open>elog(ERROR, ...)\<close> is the result \<open>Inl ElogError\<close>;
  \<^item> a read or write outside the memory the model knows about (outside an array, outside
    the tuple's data region, through a scalar used as a pointer) is \<open>Inl BadAccess\<close>;
  \<^item> the data region of a tuple is a list of bytes addressed relative to the data start
    \<^verbatim>\<open>(char *) tup + t_hoff\<close>, which is maximally aligned, so that aligning a pointer
    into the region and aligning the offset give the same position;
  \<^item> multi-byte scalars are stored least significant byte first; \<^verbatim>\<open>long\<close> and pointers
    have four bytes.
\<close>

datatype error = ElogError | BadAccess

type_synonym byte = "8 word"

subsection \<open>Datums\<close>

text \<open>
  A \<^verbatim>\<open>Datum\<close> is a machine word that holds either a scalar or a pointer. A pointer is
  modelled by the bytes found in memory from its target on.
\<close>

datatype Datum = ByVal "32 word" | ByRef "byte list"

definition DatumGetPointer :: "Datum \<Rightarrow> error + byte list" where
  \<comment> \<open>Modelled from the spec: the referenced bytes of a by-reference value; a scalar has
      no target in the model.\<close>
  "DatumGetPointer v = (case v of ByRef p \<Rightarrow> Inr p | ByVal w \<Rightarrow> Inl BadAccess)"

definition word_bytes :: "32 word \<Rightarrow> byte list" where
  "word_bytes w = [ucast w, ucast (drop_bit 8 w), ucast (drop_bit 16 w), ucast (drop_bit 24 w)]"

definition bytes_nat :: "byte list \<Rightarrow> nat" where
  "bytes_nat bs = foldr (\<lambda>b acc. unat b + 256 * acc) bs 0"

definition bytes_word :: "byte list \<Rightarrow> 32 word" where
  "bytes_word bs = of_nat (bytes_nat bs)"

definition VARSIZE :: "byte list \<Rightarrow> error + int" where
  \<comment> \<open>Modelled from the spec: "a small header encoding its own total byte length (including
      the header)"; the header is the \<^verbatim>\<open>int32 vl_len\<close> at the start of the value.\<close>
  "VARSIZE p = (if length p < 4 then Inl BadAccess else Inr (sint (bytes_word (take 4 p))))"

subsection \<open>Attribute descriptors\<close>

record AttributeTupleForm =
  attlen :: int
  attalign :: char
  attbyval :: bool
  attcacheoff :: int

type_synonym TupleDesc = "AttributeTupleForm list"

subsection \<open>Alignment\<close>

definition TYPEALIGN :: "int \<Rightarrow> int \<Rightarrow> int" where
  \<comment> \<open>Modelled from the spec: round up to the "minimum power-of-two boundary",
      \<^verbatim>\<open>(LEN + (A - 1)) & ~(A - 1)\<close>.\<close>
  "TYPEALIGN a len = ((len + (a - 1)) div a) * a"

definition SHORTALIGN :: "int \<Rightarrow> int" where
  \<comment> \<open>Modelled from the spec: the alignment class "short(2)".\<close>
  "SHORTALIGN len = TYPEALIGN 2 len"

definition INTALIGN :: "int \<Rightarrow> int" where
  \<comment> \<open>Modelled from the spec: the alignment class "int32(4)".\<close>
  "INTALIGN len = TYPEALIGN 4 len"

definition LONGALIGN :: "int \<Rightarrow> int" where
  \<comment> \<open>Modelled from the spec: the alignment of a \<^verbatim>\<open>long\<close>, which has four bytes here.\<close>
  "LONGALIGN len = TYPEALIGN 4 len"

definition DOUBLEALIGN :: "int \<Rightarrow> int" where
  \<comment> \<open>Modelled from the spec: the alignment class "double/maxalign(8)".\<close>
  "DOUBLEALIGN len = TYPEALIGN 8 len"

definition attlen_lt_sizeof_int32 :: "int \<Rightarrow> bool" where
  \<comment> \<open>\<^verbatim>\<open>att[i]->attlen < sizeof(int32)\<close>: the left operand is converted to the unsigned type
      of \<^verbatim>\<open>sizeof\<close>, so a negative length compares as a huge number.\<close>
  "attlen_lt_sizeof_int32 l = (0 \<le> l \<and> l < 4)"

definition attlen_gt_sizeof_int32 :: "int \<Rightarrow> bool" where
  \<comment> \<open>\<^verbatim>\<open>att[i]->attlen > sizeof(int32)\<close>, with the same conversion.\<close>
  "attlen_gt_sizeof_int32 l = (l < 0 \<or> 4 < l)"

definition att_align_default :: "AttributeTupleForm \<Rightarrow> int \<Rightarrow> int" where
  \<comment> \<open>\<^verbatim>\<open>attalign == 'd' ? DOUBLEALIGN(off) : LONGALIGN(off)\<close>\<close>
  "att_align_default a off = (if attalign a = CHR ''d'' then DOUBLEALIGN off else LONGALIGN off)"

definition att_align_varlena :: "AttributeTupleForm \<Rightarrow> int \<Rightarrow> int" where
  \<comment> \<open>\<^verbatim>\<open>attalign == 'd' ? DOUBLEALIGN(off) : INTALIGN(off)\<close>\<close>
  "att_align_varlena a off = (if attalign a = CHR ''d'' then DOUBLEALIGN off else INTALIGN off)"

subsection \<open>ComputeDataSize\<close>

definition uint32 :: "int \<Rightarrow> int" where
  \<comment> \<open>The value a \<^verbatim>\<open>uint32\<close> variable holds after an assignment.\<close>
  "uint32 x = x mod 2 ^ 32"

definition ComputeDataSize_step ::
  "AttributeTupleForm \<Rightarrow> Datum \<Rightarrow> char \<Rightarrow> int \<Rightarrow> error + int" where
  \<comment> \<open>One iteration of the loop; \<^verbatim>\<open>data_length\<close> is a \<^verbatim>\<open>uint32\<close>.\<close>
  "ComputeDataSize_step a v n data_length =
     (if n \<noteq> CHR '' '' then Inr data_length
      else if attlen a = -1 then
        (case DatumGetPointer v of Inl e \<Rightarrow> Inl e | Inr p \<Rightarrow>
           (case VARSIZE p of Inl e \<Rightarrow> Inl e | Inr sz \<Rightarrow>
              Inr (uint32 (att_align_varlena a data_length + sz))))
      else if attlen a = 1 then Inr (uint32 (data_length + 1))
      else if attlen a = 2 then Inr (uint32 (SHORTALIGN (data_length + 2)))
      else if attlen a = 4 then Inr (uint32 (INTALIGN (data_length + 4)))
      else if attlen_lt_sizeof_int32 (attlen a) then Inl ElogError
      else Inr (uint32 (att_align_default a data_length + attlen a)))"

fun ComputeDataSize_loop ::
  "(AttributeTupleForm \<times> Datum \<times> char) list \<Rightarrow> int \<Rightarrow> error + int" where
  "ComputeDataSize_loop [] data_length = Inr data_length"
| "ComputeDataSize_loop ((a, v, n) # rest) data_length =
     (case ComputeDataSize_step a v n data_length of
        Inl e \<Rightarrow> Inl e
      | Inr data_length' \<Rightarrow> ComputeDataSize_loop rest data_length')"

definition ComputeDataSize :: "TupleDesc \<Rightarrow> Datum list \<Rightarrow> string \<Rightarrow> error + int" where
  \<comment> \<open>\<^verbatim>\<open>value[]\<close> and \<^verbatim>\<open>nulls[]\<close> hold at least \<^verbatim>\<open>natts\<close> entries; the loop reads the
      first \<^verbatim>\<open>natts\<close> of each.\<close>
  "ComputeDataSize tupleDesc val nulls =
     (if length val < length tupleDesc \<or> length nulls < length tupleDesc then Inl BadAccess
      else ComputeDataSize_loop (zip tupleDesc (zip val nulls)) 0)"

subsection \<open>DataFill\<close>

definition HEAP_HASNULL :: "16 word" where
  \<comment> \<open>Modelled from the spec: the whole-tuple flag "has null"; bit \<^verbatim>\<open>0x01\<close> of the mask.\<close>
  "HEAP_HASNULL = 0x0001"

definition HEAP_HASVARLENA :: "16 word" where
  \<comment> \<open>Modelled from the spec: the whole-tuple flag "has variable-length attribute";
      \<^verbatim>\<open>indextuple.c\<close> tests it as mask position \<^verbatim>\<open>0x02\<close>.\<close>
  "HEAP_HASVARLENA = 0x0002"

definition CSIGNBIT :: int where
  \<comment> \<open>Modelled from the spec: the sign bit of a byte, \<^verbatim>\<open>0x80\<close>.\<close>
  "CSIGNBIT = 128"

record DataFill_state =
  df_data :: "byte list"      \<comment> \<open>bytes from the data start up to the cursor \<^verbatim>\<open>data\<close>\<close>
  df_infomask :: "16 word"
  df_bits :: "byte list"      \<comment> \<open>bitmap bytes \<^verbatim>\<open>bit[0]\<close> .. \<^verbatim>\<open>*bitP\<close>\<close>
  df_bitmask :: int

definition align_data :: "(int \<Rightarrow> int) \<Rightarrow> byte list \<Rightarrow> byte list" where
  \<comment> \<open>\<^verbatim>\<open>data = (char *) XXXALIGN(data)\<close>; the buffer was zeroed by \<^verbatim>\<open>MemSet\<close>.\<close>
  "align_data f d = d @ replicate (nat (f (int (length d))) - length d) 0"

definition memmove_from :: "byte list \<Rightarrow> int \<Rightarrow> error + byte list" where
  \<comment> \<open>The \<^verbatim>\<open>n\<close> bytes a \<^verbatim>\<open>memmove\<close> reads from \<^verbatim>\<open>p\<close>; the length is an unsigned
      \<^verbatim>\<open>size_t\<close>.\<close>
  "memmove_from p n = (if n < 0 \<or> int (length p) < n then Inl BadAccess else Inr (take (nat n) p))"

definition scalar_bytes :: "bool \<Rightarrow> nat \<Rightarrow> Datum \<Rightarrow> error + byte list" where
  \<comment> \<open>\<^verbatim>\<open>attbyval ? DatumGetIntN(value[i]) : *((intN *) value[i])\<close> for N = 8, 16, 32 bits.\<close>
  "scalar_bytes byval n v =
     (if byval then (case v of ByVal w \<Rightarrow> Inr (take n (word_bytes w)) | ByRef p \<Rightarrow> Inl BadAccess)
      else (case DatumGetPointer v of Inl e \<Rightarrow> Inl e | Inr p \<Rightarrow> memmove_from p (int n)))"

definition DataFill_attr ::
  "AttributeTupleForm \<Rightarrow> Datum \<Rightarrow> DataFill_state \<Rightarrow> error + DataFill_state" where
  \<comment> \<open>The \<^verbatim>\<open>switch (att[i]->attlen)\<close> of the loop body.\<close>
  "DataFill_attr a v s =
     (if attlen a = -1 then
        (case DatumGetPointer v of Inl e \<Rightarrow> Inl e | Inr p \<Rightarrow>
           (case VARSIZE p of Inl e \<Rightarrow> Inl e | Inr sz \<Rightarrow>
              (case memmove_from p (uint32 sz) of Inl e \<Rightarrow> Inl e | Inr bs \<Rightarrow>
                 Inr (s\<lparr>df_infomask := df_infomask s OR HEAP_HASVARLENA,
                         df_data := align_data (att_align_varlena a) (df_data s) @ bs\<rparr>))))
      else if attlen a = 1 then
        (case scalar_bytes (attbyval a) 1 v of Inl e \<Rightarrow> Inl e | Inr bs \<Rightarrow>
           Inr (s\<lparr>df_data := df_data s @ bs\<rparr>))
      else if attlen a = 2 then
        (case scalar_bytes (attbyval a) 2 v of Inl e \<Rightarrow> Inl e | Inr bs \<Rightarrow>
           Inr (s\<lparr>df_data := align_data SHORTALIGN (df_data s) @ bs\<rparr>))
      else if attlen a = 4 then
        (case scalar_bytes (attbyval a) 4 v of Inl e \<Rightarrow> Inl e | Inr bs \<Rightarrow>
           Inr (s\<lparr>df_data := align_data INTALIGN (df_data s) @ bs\<rparr>))
      else if attlen_lt_sizeof_int32 (attlen a) then Inl ElogError
      else
        (case DatumGetPointer v of Inl e \<Rightarrow> Inl e | Inr p \<Rightarrow>
           (case memmove_from p (attlen a) of Inl e \<Rightarrow> Inl e | Inr bs \<Rightarrow>
              Inr (s\<lparr>df_data := align_data (att_align_default a) (df_data s) @ bs\<rparr>))))"

definition DataFill_step ::
  "bool \<Rightarrow> AttributeTupleForm \<Rightarrow> Datum \<Rightarrow> char \<Rightarrow> DataFill_state \<Rightarrow> error + DataFill_state" where
  \<comment> \<open>One iteration of the loop; \<open>hasbit\<close> is \<^verbatim>\<open>bit != NULL\<close>.\<close>
  "DataFill_step hasbit a v n s =
     (if hasbit then
        (let s1 = (if df_bitmask s \<noteq> CSIGNBIT then s\<lparr>df_bitmask := 2 * df_bitmask s\<rparr>
                   else s\<lparr>df_bits := df_bits s @ [0], df_bitmask := 1\<rparr>)
         in if n = CHR ''n'' then Inr (s1\<lparr>df_infomask := df_infomask s1 OR HEAP_HASNULL\<rparr>)
            else if df_bits s1 = [] then Inl BadAccess
            else DataFill_attr a v
                   (s1\<lparr>df_bits := butlast (df_bits s1) @
                                     [last (df_bits s1) OR word_of_int (df_bitmask s1)]\<rparr>))
      else DataFill_attr a v s)"

fun DataFill_loop ::
  "bool \<Rightarrow> (AttributeTupleForm \<times> Datum \<times> char) list \<Rightarrow> DataFill_state \<Rightarrow>
   error + DataFill_state" where
  "DataFill_loop hasbit [] s = Inr s"
| "DataFill_loop hasbit ((a, v, n) # rest) s =
     (case DataFill_step hasbit a v n s of
        Inl e \<Rightarrow> Inl e
      | Inr s' \<Rightarrow> DataFill_loop hasbit rest s')"

definition DataFill ::
  "TupleDesc \<Rightarrow> Datum list \<Rightarrow> string \<Rightarrow> bool \<Rightarrow> error + DataFill_state" where
  \<comment> \<open>The result holds what was written from \<^verbatim>\<open>data\<close> on, \<^verbatim>\<open>*infomask\<close> and the bitmap
      bytes written from \<^verbatim>\<open>bit\<close> on.\<close>
  "DataFill tupleDesc val nulls hasbit =
     (if length val < length tupleDesc \<or> length nulls < length tupleDesc then Inl BadAccess
      else DataFill_loop hasbit (zip tupleDesc (zip val nulls))
             \<lparr>df_data = [], df_infomask = 0, df_bits = [],
              df_bitmask = (if hasbit then CSIGNBIT else 0)\<rparr>)"

definition hasnull_scan :: "TupleDesc \<Rightarrow> string \<Rightarrow> bool" where
  \<comment> \<open>\<^verbatim>\<open>for (i = 0; i < numberOfAttributes && !hasnull; i++) if (nulls[i] != ' ') hasnull = true;\<close>\<close>
  "hasnull_scan tupleDesc nulls = list_ex (\<lambda>n. n \<noteq> CHR '' '') (take (length tupleDesc) nulls)"


subsection \<open>Heap tuples\<close>

record HeapTupleData =
  t_len :: int
  t_ctid :: "48 word"
  t_oid :: "32 word"
  t_xmin :: "32 word"
  t_cmin :: "32 word"
  t_xmax :: "32 word"
  t_cmax :: "32 word"
  t_natts :: int
  t_hoff :: int
  t_infomask :: "16 word"
  t_bits :: "byte list option"  \<comment> \<open>the null bitmap; \<open>None\<close> when none was stored\<close>
  t_data :: "byte list"         \<comment> \<open>the bytes from \<^verbatim>\<open>(char *) tup + t_hoff\<close> to the end\<close>

definition HEAP_XMAX_INVALID :: "16 word" where
  \<comment> \<open>Modelled from the spec: a flag of the transaction-visibility metadata kept in the high
      byte of the mask, \<^verbatim>\<open>0x0800\<close>.\<close>
  "HEAP_XMAX_INVALID = 0x0800"

definition MaxHeapAttributeNumber :: int where
  \<comment> \<open>Modelled from the spec: "the format's fixed limit" on the schema width of a row.\<close>
  "MaxHeapAttributeNumber = 1600"

definition sizeof_HeapTupleData_fixed :: int where
  \<comment> \<open>Modelled from the spec: the size of the fixed header,
      \<^verbatim>\<open>sizeof *tuple - sizeof tuple->t_bits\<close>.\<close>
  "sizeof_HeapTupleData_fixed = 36"

definition BITMAPLEN :: "int \<Rightarrow> int" where
  \<comment> \<open>Modelled from the spec: "Bitmap length in bytes = ceil(attribute_count / 8)".\<close>
  "BITMAPLEN natts = (natts + 7) div 8"

definition HeapTupleNoNulls :: "HeapTupleData \<Rightarrow> bool" where
  \<comment> \<open>Modelled from the spec: the whole-tuple flag "has null" is clear.\<close>
  "HeapTupleNoNulls tup = (t_infomask tup AND HEAP_HASNULL = 0)"

definition HeapTupleAllFixed :: "HeapTupleData \<Rightarrow> bool" where
  \<comment> \<open>Modelled from the spec: the whole-tuple flag "has variable-length attribute" is clear.\<close>
  "HeapTupleAllFixed tup = (t_infomask tup AND HEAP_HASVARLENA = 0)"

definition att_isnull :: "nat \<Rightarrow> byte list option \<Rightarrow> error + bool" where
  \<comment> \<open>Modelled from the spec: "Bit i (0-indexed, attribute i) is set when attribute i is NOT
      null", \<^verbatim>\<open>!(BITS[ATT >> 3] & (1 << (ATT & 0x07)))\<close>.\<close>
  "att_isnull i bp =
     (case bp of None \<Rightarrow> Inl BadAccess
      | Some bs \<Rightarrow> if length bs \<le> i div 8 then Inl BadAccess
                   else Inr (\<not> bit (bs ! (i div 8)) (i mod 8)))"

definition fetchatt :: "AttributeTupleForm \<Rightarrow> byte list \<Rightarrow> int \<Rightarrow> error + Datum" where
  \<comment> \<open>Modelled from the spec: "for fixed-length attributes, reinterpret the bytes at that
      offset as the appropriate inline or by-reference value; for variable-length attributes,
      return a reference to the bytes starting at that (aligned) offset". A by-value
      attribute is read as \<^verbatim>\<open>int32\<close> when \<^verbatim>\<open>attlen > 2\<close>, as \<^verbatim>\<open>char\<close> when \<^verbatim>\<open>attlen < 2\<close>,
      as \<^verbatim>\<open>int16\<close> otherwise, and widened with its sign.\<close>
  "fetchatt a tp off =
     (if off < 0 \<or> int (length tp) < off then Inl BadAccess
      else
        (let p = drop (nat off) tp in
         if attbyval a \<and> attlen a \<noteq> -1 then
           (if attlen a > 2 then
              (if length p < 4 then Inl BadAccess else Inr (ByVal (bytes_word (take 4 p))))
            else if attlen a < 2 then
              (if length p < 1 then Inl BadAccess else Inr (ByVal (scast (hd p))))
            else
              (if length p < 2 then Inl BadAccess
               else Inr (ByVal (scast (word_of_nat (bytes_nat (take 2 p)) :: 16 word)))))
         else Inr (ByRef p)))"

definition VARSIZE_at :: "byte list \<Rightarrow> int \<Rightarrow> error + int" where
  \<comment> \<open>\<^verbatim>\<open>VARSIZE(tp + off)\<close>\<close>
  "VARSIZE_at tp off =
     (if off < 0 \<or> int (length tp) < off then Inl BadAccess else VARSIZE (drop (nat off) tp))"

definition heap_formtuple :: "TupleDesc \<Rightarrow> Datum list \<Rightarrow> string \<Rightarrow> error + HeapTupleData" where
  \<comment> \<open>The buffer of \<^verbatim>\<open>len\<close> zeroed bytes holds the header, the bitmap and \<^verbatim>\<open>len - hoff\<close>
      bytes of data; \<^verbatim>\<open>DataFill\<close> must not write past it. With at most
      \<open>MaxHeapAttributeNumber\<close> attributes \<^verbatim>\<open>hoff\<close> fits the \<^verbatim>\<open>uint8\<close> field
      \<^verbatim>\<open>t_hoff\<close>.\<close>
  "heap_formtuple tupleDescriptor val nulls =
     (let numberOfAttributes = int (length tupleDescriptor) in
      if length val < length tupleDescriptor \<or> length nulls < length tupleDescriptor
      then Inl BadAccess
      else
        (let hasnull = hasnull_scan tupleDescriptor nulls in
         if numberOfAttributes > MaxHeapAttributeNumber then Inl ElogError
         else
           (let len = (if hasnull then sizeof_HeapTupleData_fixed + BITMAPLEN numberOfAttributes
                       else sizeof_HeapTupleData_fixed);
                hoff = DOUBLEALIGN len
            in case ComputeDataSize tupleDescriptor val nulls of
                 Inl e \<Rightarrow> Inl e
               | Inr sz \<Rightarrow>
                   (let len = uint32 (hoff + sz) in
                    case DataFill tupleDescriptor val nulls hasnull of
                      Inl e \<Rightarrow> Inl e
                    | Inr s \<Rightarrow>
                        if len - hoff < int (length (df_data s)) then Inl BadAccess
                        else Inr \<lparr>t_len = len, t_ctid = 0, t_oid = 0, t_xmin = 0, t_cmin = 0,
                                  t_xmax = 0, t_cmax = 0,
                                  t_natts = numberOfAttributes, t_hoff = hoff,
                                  t_infomask = df_infomask s OR HEAP_XMAX_INVALID,
                                  t_bits = (if hasnull then Some (df_bits s) else None),
                                  t_data = df_data s @
                                    replicate (nat (len - hoff) - length (df_data s)) 0\<rparr>))))"

definition heap_attisnull :: "HeapTupleData \<Rightarrow> int \<Rightarrow> error + int" where
  \<comment> \<open>The system attribute numbers are \<open>-1\<close> (self item pointer) to \<open>-6\<close> (max command id),
      the order of \<^verbatim>\<open>heap_sysoffset[]\<close>.\<close>
  "heap_attisnull tup attnum =
     (if attnum > t_natts tup then Inr 1
      else if HeapTupleNoNulls tup then Inr 0
      else if attnum > 0 then
        (case att_isnull (nat (attnum - 1)) (t_bits tup) of
           Inl e \<Rightarrow> Inl e
         | Inr b \<Rightarrow> Inr (if b then 1 else 0))
      else if -6 \<le> attnum \<and> attnum \<le> -1 then Inr 0
      else if attnum = 0 then Inl ElogError
      else Inl ElogError)"

subsection \<open>nocachegetattr\<close>

definition heap_att_align :: "AttributeTupleForm \<Rightarrow> int \<Rightarrow> error + int" where
  \<comment> \<open>The alignment \<^verbatim>\<open>switch (att[j]->attlen)\<close>, which raises on
      \<^verbatim>\<open>attlen < sizeof(int32)\<close> in its default case.\<close>
  "heap_att_align a off =
     (if attlen a = -1 then Inr (att_align_varlena a off)
      else if attlen a = 1 then Inr off
      else if attlen a = 2 then Inr (SHORTALIGN off)
      else if attlen a = 4 then Inr (INTALIGN off)
      else if attlen_lt_sizeof_int32 (attlen a) then Inl ElogError
      else Inr (att_align_default a off))"

fun nulls_before :: "byte list option \<Rightarrow> nat list \<Rightarrow> error + bool" where
  \<comment> \<open>\<^verbatim>\<open>for (i = 0; i < attnum && !slow; i++) if (att_isnull(i, bp)) slow = 1;\<close>\<close>
  "nulls_before bp [] = Inr False"
| "nulls_before bp (i # rest) =
     (case att_isnull i bp of
        Inl e \<Rightarrow> Inl e
      | Inr b \<Rightarrow> if b then Inr True else nulls_before bp rest)"

definition varlena_before :: "TupleDesc \<Rightarrow> nat \<Rightarrow> bool" where
  \<comment> \<open>\<^verbatim>\<open>for (j = 0; j < attnum && !slow; j++) if (att[j]->attlen < 1) slow = 1;\<close>\<close>
  "varlena_before att attnum = list_ex (\<lambda>a. attlen a < 1) (take attnum att)"

definition first_uncached :: "TupleDesc \<Rightarrow> error + nat" where
  \<comment> \<open>\<^verbatim>\<open>j = 1; while (att[j]->attcacheoff > 0) j++;\<close> The scan leaves the array when every
      entry from 1 on is cached.\<close>
  "first_uncached att =
     (case find (\<lambda>j. \<not> 0 < attcacheoff (att ! j)) [1..<length att] of
        Some j \<Rightarrow> Inr j
      | None \<Rightarrow> Inl BadAccess)"

fun heap_cache_fill :: "nat list \<Rightarrow> TupleDesc \<Rightarrow> int \<Rightarrow> error + TupleDesc" where
  \<comment> \<open>\<^verbatim>\<open>for (; j < attnum + 1; j++) { align off; att[j]->attcacheoff = off; off += attlen; }\<close>\<close>
  "heap_cache_fill [] att off = Inr att"
| "heap_cache_fill (j # rest) att off =
     (case heap_att_align (att ! j) off of
        Inl e \<Rightarrow> Inl e
      | Inr off' \<Rightarrow>
          heap_cache_fill rest (att[j := (att ! j)\<lparr>attcacheoff := off'\<rparr>])
            (off' + attlen (att ! j)))"

record walk_state =
  w_att :: TupleDesc
  w_off :: int
  w_usecache :: bool

definition heap_walk_step :: "HeapTupleData \<Rightarrow> nat \<Rightarrow> walk_state \<Rightarrow> error + walk_state" where
  \<comment> \<open>The body of the careful walk \<^verbatim>\<open>for (i = 0; i < attnum; i++)\<close>.\<close>
  "heap_walk_step tup i s =
     (case (if HeapTupleNoNulls tup then Inr False else att_isnull i (t_bits tup)) of
        Inl e \<Rightarrow> Inl e
      | Inr isnull \<Rightarrow>
          if isnull then Inr (s\<lparr>w_usecache := False\<rparr>)
          else
            (let a = w_att s ! i in
             case heap_att_align a (w_off s) of
               Inl e \<Rightarrow> Inl e
             | Inr off1 \<Rightarrow>
                 (let s2 = (if w_usecache s \<and> attcacheoff a > 0
                            then s\<lparr>w_off := attcacheoff a,
                                   w_usecache := (if attlen a = -1 then False else w_usecache s)\<rparr>
                            else if w_usecache s
                            then s\<lparr>w_att := (w_att s)[i := a\<lparr>attcacheoff := off1\<rparr>],
                                   w_off := off1\<rparr>
                            else s\<lparr>w_off := off1\<rparr>)
                  in if attlen a = 1 then Inr (s2\<lparr>w_off := w_off s2 + 1\<rparr>)
                     else if attlen a = 2 then Inr (s2\<lparr>w_off := w_off s2 + 2\<rparr>)
                     else if attlen a = 4 then Inr (s2\<lparr>w_off := w_off s2 + 4\<rparr>)
                     else if attlen a = -1 then
                       (case VARSIZE_at (t_data tup) (w_off s2) of
                          Inl e \<Rightarrow> Inl e
                        | Inr sz \<Rightarrow> Inr (s2\<lparr>w_off := w_off s2 + sz, w_usecache := False\<rparr>))
                     else Inr (s2\<lparr>w_off := w_off s2 + attlen a\<rparr>))))"

fun heap_walk :: "HeapTupleData \<Rightarrow> nat list \<Rightarrow> walk_state \<Rightarrow> error + walk_state" where
  "heap_walk tup [] s = Inr s"
| "heap_walk tup (i # rest) s =
     (case heap_walk_step tup i s of Inl e \<Rightarrow> Inl e | Inr s' \<Rightarrow> heap_walk tup rest s')"

definition fetch_with :: "TupleDesc \<Rightarrow> nat \<Rightarrow> byte list \<Rightarrow> int \<Rightarrow> error + Datum \<times> TupleDesc" where
  \<comment> \<open>\<^verbatim>\<open>return (Datum) fetchatt(&(att[attnum]), tp + off)\<close>, together with the descriptor
      as the call leaves it.\<close>
  "fetch_with att attnum tp off =
     (case fetchatt (att ! attnum) tp off of Inl e \<Rightarrow> Inl e | Inr d \<Rightarrow> Inr (d, att))"

definition nocachegetattr ::
  "HeapTupleData \<Rightarrow> int \<Rightarrow> TupleDesc \<Rightarrow> error + Datum \<times> TupleDesc" where
  \<comment> \<open>The attribute number is 1-based; a number without an entry in \<^verbatim>\<open>tupleDesc->attrs\<close>
      indexes outside the array.\<close>
  "nocachegetattr tup attnum1 att =
     (if attnum1 < 1 \<or> int (length att) < attnum1 then Inl BadAccess
      else
        (let attnum = nat (attnum1 - 1); tp = t_data tup in
         case (if HeapTupleNoNulls tup then Inr False
               else nulls_before (t_bits tup) [0..<attnum]) of
           Inl e \<Rightarrow> Inl e
         | Inr slow1 \<Rightarrow>
             if \<not> slow1 \<and> attcacheoff (att ! attnum) > 0
             then fetch_with att attnum tp (attcacheoff (att ! attnum))
             else if \<not> slow1 \<and> attnum = 0 then fetch_with att 0 tp 0
             else
               (let slow = (slow1 \<or> (\<not> HeapTupleAllFixed tup \<and> varlena_before att attnum)) in
                if \<not> slow then
                  (let att0 = att[0 := (att ! 0)\<lparr>attcacheoff := 0\<rparr>] in
                   case first_uncached att0 of
                     Inl e \<Rightarrow> Inl e
                   | Inr j \<Rightarrow>
                       (case heap_cache_fill [j..<attnum + 1] att0
                               (attcacheoff (att0 ! (j - 1)) + attlen (att0 ! (j - 1))) of
                          Inl e \<Rightarrow> Inl e
                        | Inr att' \<Rightarrow> fetch_with att' attnum tp (attcacheoff (att' ! attnum))))
                else
                  (case heap_walk tup [0..<attnum]
                          \<lparr>w_att = att, w_off = 0, w_usecache = True\<rparr> of
                     Inl e \<Rightarrow> Inl e
                   | Inr s \<Rightarrow>
                       (case heap_att_align (w_att s ! attnum) (w_off s) of
                          Inl e \<Rightarrow> Inl e
                        | Inr off \<Rightarrow> fetch_with (w_att s) attnum tp off)))))"


definition heap_getattr ::
  "HeapTupleData \<Rightarrow> int \<Rightarrow> TupleDesc \<Rightarrow> error + (Datum \<times> bool) \<times> TupleDesc" where
  \<comment> \<open>Modelled from the spec: "given a built tuple and a 1-based attribute number, return the
      decoded value and an is-null flag". The macro is not in the source tree; the blocks
      marked \<^verbatim>\<open>IN_MACRO\<close> in \<^verbatim>\<open>nocachegetattr\<close> say what it handles before the call: it
      clears \<^verbatim>\<open>*isnull\<close>, answers null for an attribute whose bitmap bit is clear, and
      otherwise takes the shortcuts that \<^verbatim>\<open>nocachegetattr\<close> repeats. An attribute number
      beyond \<^verbatim>\<open>t_natts\<close> is null, as in \<^verbatim>\<open>heap_attisnull\<close>. System attributes
      (numbers below 1) are not modelled.\<close>
  "heap_getattr tup attnum tupleDesc =
     (if attnum < 1 then Inl BadAccess
      else if attnum > t_natts tup then Inr ((ByVal 0, True), tupleDesc)
      else
        (case (if HeapTupleNoNulls tup then Inr False
               else att_isnull (nat (attnum - 1)) (t_bits tup)) of
           Inl e \<Rightarrow> Inl e
         | Inr isnull \<Rightarrow>
             if isnull then Inr ((ByVal 0, True), tupleDesc)
             else
               (case nocachegetattr tup attnum tupleDesc of
                  Inl e \<Rightarrow> Inl e
                | Inr (d, att') \<Rightarrow> Inr ((d, False), att'))))"

subsection \<open>heap_copytuple and heap_modifytuple\<close>

definition heap_copytuple :: "int \<Rightarrow> HeapTupleData option \<Rightarrow> error + HeapTupleData option" where
  \<comment> \<open>\<open>MAXTUPLEN\<close> is a constant of a header that is not in the source tree and is taken as
      a parameter. \<open>None\<close> is the invalid (null) tuple pointer. The header and bitmap occupy
      the first \<^verbatim>\<open>t_hoff\<close> bytes of the tuple, so \<^verbatim>\<open>memmove\<close> of \<^verbatim>\<open>t_len\<close> bytes copies the
      header and the first \<^verbatim>\<open>t_len - t_hoff\<close> bytes of the data region.\<close>
  "heap_copytuple MAXTUPLEN tuple =
     (case tuple of
        None \<Rightarrow> Inr None
      | Some t \<Rightarrow>
          if t_len t > MAXTUPLEN then Inl ElogError
          else if t_len t < t_hoff t \<or> int (length (t_data t)) < t_len t - t_hoff t
          then Inl BadAccess
          else Inr (Some (t\<lparr>t_data := take (nat (t_len t - t_hoff t)) (t_data t)\<rparr>)))"

fun modify_collect ::
  "HeapTupleData \<Rightarrow> nat list \<Rightarrow> Datum list \<Rightarrow> string \<Rightarrow> string \<Rightarrow>
   Datum list \<times> string \<times> TupleDesc \<Rightarrow> error + Datum list \<times> string \<times> TupleDesc" where
  \<comment> \<open>The loop over \<^verbatim>\<open>attoff\<close> that fills \<^verbatim>\<open>value[]\<close> and \<^verbatim>\<open>nulls[]\<close>.\<close>
  "modify_collect tuple [] replValue replNull repl acc = Inr acc"
| "modify_collect tuple (attoff # rest) replValue replNull repl (val, nulls, att) =
     (if repl ! attoff = CHR '' '' then
        (case heap_getattr tuple (int attoff + 1) att of
           Inl e \<Rightarrow> Inl e
         | Inr ((d, isNull), att') \<Rightarrow>
             modify_collect tuple rest replValue replNull repl
               (val @ [d], nulls @ [if isNull then CHR ''n'' else CHR '' ''], att'))
      else if repl ! attoff \<noteq> CHR ''r'' then Inl ElogError
      else modify_collect tuple rest replValue replNull repl
             (val @ [replValue ! attoff], nulls @ [replNull ! attoff], att))"

definition uint8 :: "16 word \<Rightarrow> 16 word" where
  \<comment> \<open>The value of a \<^verbatim>\<open>uint16\<close> after it went through a \<^verbatim>\<open>uint8\<close> variable.\<close>
  "uint8 w = ucast (ucast w :: 8 word)"

definition heap_modifytuple ::
  "int \<Rightarrow> HeapTupleData \<Rightarrow> bool \<Rightarrow> TupleDesc \<Rightarrow> Datum list \<Rightarrow> string \<Rightarrow> string \<Rightarrow>
   error + HeapTupleData \<times> TupleDesc" where
  \<comment> \<open>\<open>bufferValid\<close> is \<^verbatim>\<open>BufferIsValid(buffer)\<close>; \<open>att\<close> is the tuple descriptor of the
      relation, whose width is \<^verbatim>\<open>relnatts\<close>. The \<^verbatim>\<open>memmove\<close> from \<^verbatim>\<open>t_oid\<close> up to
      \<^verbatim>\<open>t_hoff\<close> copies what the comment in the source lists: the header except
      \<^verbatim>\<open>t_len\<close>, \<^verbatim>\<open>t_natts\<close>, \<^verbatim>\<open>t_hoff\<close>, \<^verbatim>\<open>t_bits\<close> and \<^verbatim>\<open>t_infomask\<close>; the local
      \<^verbatim>\<open>infomask\<close> that carries the new mask over the copy is a \<^verbatim>\<open>uint8\<close>.\<close>
  "heap_modifytuple MAXTUPLEN tuple bufferValid att replValue replNull repl =
     (case (if bufferValid then heap_copytuple MAXTUPLEN (Some tuple) else Inr (Some tuple)) of
        Inl e \<Rightarrow> Inl e
      | Inr None \<Rightarrow> Inl BadAccess
      | Inr (Some tuple') \<Rightarrow>
          (let numberOfAttributes = length att in
           if length replValue < numberOfAttributes \<or> length replNull < numberOfAttributes
              \<or> length repl < numberOfAttributes
           then Inl BadAccess
           else
             (case modify_collect tuple' [0..<numberOfAttributes] replValue replNull repl
                     ([], [], att) of
                Inl e \<Rightarrow> Inl e
              | Inr (val, nulls, att') \<Rightarrow>
                  (case heap_formtuple att' val nulls of
                     Inl e \<Rightarrow> Inl e
                   | Inr newTuple \<Rightarrow>
                       Inr (newTuple\<lparr>t_ctid := t_ctid tuple', t_oid := t_oid tuple',
                                      t_xmin := t_xmin tuple', t_cmin := t_cmin tuple',
                                      t_xmax := t_xmax tuple', t_cmax := t_cmax tuple',
                                      t_infomask := uint8 (t_infomask newTuple),
                                      t_natts := int numberOfAttributes\<rparr>, att')))))"

subsection \<open>Index tuples\<close>

record IndexTupleData =
  t_tid :: "48 word"
  t_info :: "16 word"
  i_bits :: "byte list option"  \<comment> \<open>the bytes from \<^verbatim>\<open>(char *) tup + sizeof(*tup)\<close> up to the
                                    data start; \<open>None\<close> when the data starts there\<close>
  i_data :: "byte list"         \<comment> \<open>the bytes from the data start to the end\<close>

definition MaxIndexAttributeNumber :: int where
  \<comment> \<open>Modelled from the spec: "the format's fixed limit" on the width of an index.\<close>
  "MaxIndexAttributeNumber = 7"

definition INDEX_NULL_MASK :: int where
  \<comment> \<open>Modelled from the spec: the "has null" flag bit of the info field.\<close>
  "INDEX_NULL_MASK = 0x8000"

definition INDEX_VAR_MASK :: int where
  \<comment> \<open>Modelled from the spec: the "has variable-length attribute" flag bit of the info field.\<close>
  "INDEX_VAR_MASK = 0x4000"

definition sizeof_IndexTupleData :: int where
  \<comment> \<open>Modelled from the spec: the size of the index tuple header (item pointer and info
      field).\<close>
  "sizeof_IndexTupleData = 8"

definition sizeof_IndexAttributeBitMapData :: int where
  \<comment> \<open>Modelled from the spec: one bit for each of the \<open>MaxIndexAttributeNumber\<close>
      attributes.\<close>
  "sizeof_IndexAttributeBitMapData = 1"

definition IndexInfoFindDataOffset :: "int \<Rightarrow> int" where
  \<comment> \<open>Modelled from the spec: "index-tuples compute a header offset from a single info
      field": the header, and with nulls the bitmap after it, aligned.\<close>
  "IndexInfoFindDataOffset info =
     (if info AND INDEX_NULL_MASK = 0 then sizeof_IndexTupleData
      else DOUBLEALIGN (sizeof_IndexTupleData + sizeof_IndexAttributeBitMapData))"

definition IndexTupleNoNulls :: "IndexTupleData \<Rightarrow> bool" where
  \<comment> \<open>Modelled from the spec: the "has null" flag bit of the info field is clear.\<close>
  "IndexTupleNoNulls tup = (uint (t_info tup) AND INDEX_NULL_MASK = 0)"

definition IndexTupleAllFixed :: "IndexTupleData \<Rightarrow> bool" where
  \<comment> \<open>Modelled from the spec: the "has variable-length attribute" flag bit is clear.\<close>
  "IndexTupleAllFixed tup = (uint (t_info tup) AND INDEX_VAR_MASK = 0)"

definition index_formtuple :: "TupleDesc \<Rightarrow> Datum list \<Rightarrow> string \<Rightarrow> error + IndexTupleData" where
  \<comment> \<open>\<^verbatim>\<open>size\<close> and \<^verbatim>\<open>hoff\<close> are of the unsigned type \<^verbatim>\<open>Size\<close>; the info field is an
      \<^verbatim>\<open>unsigned short\<close>. The buffer of \<^verbatim>\<open>size\<close> zeroed bytes holds the header, the
      bitmap up to the data start and \<^verbatim>\<open>size - hoff\<close> bytes of data.\<close>
  "index_formtuple tupleDescriptor val null =
     (let numberOfAttributes = int (length tupleDescriptor) in
      if numberOfAttributes > MaxIndexAttributeNumber then Inl ElogError
      else if length val < length tupleDescriptor \<or> length null < length tupleDescriptor
      then Inl BadAccess
      else
        (let hasnull = hasnull_scan tupleDescriptor null;
             infomask = (if hasnull then INDEX_NULL_MASK else 0);
             hoff = IndexInfoFindDataOffset infomask
         in case ComputeDataSize tupleDescriptor val null of
              Inl e \<Rightarrow> Inl e
            | Inr sz \<Rightarrow>
                (let size = uint32 (DOUBLEALIGN (uint32 (hoff + sz))) in
                 case DataFill tupleDescriptor val null hasnull of
                   Inl e \<Rightarrow> Inl e
                 | Inr s \<Rightarrow>
                     if size - hoff < int (length (df_data s))
                        \<or> hoff - sizeof_IndexTupleData < int (length (df_bits s))
                     then Inl BadAccess
                     else
                       (let infomask = (if df_infomask s AND 0x02 \<noteq> 0
                                        then infomask OR INDEX_VAR_MASK else infomask)
                        in if size AND 0xE000 \<noteq> 0 then Inl ElogError
                           else Inr \<lparr>t_tid = 0, t_info = word_of_int (infomask OR size),
                                     i_bits = (if hasnull
                                               then Some (df_bits s @ replicate
                                                      (nat (hoff - sizeof_IndexTupleData)
                                                         - length (df_bits s)) 0)
                                               else None),
                                     i_data = df_data s @
                                       replicate (nat (size - hoff) - length (df_data s)) 0\<rparr>))))"

subsection \<open>nocache_index_getattr\<close>

definition index_att_align :: "AttributeTupleForm \<Rightarrow> int \<Rightarrow> error + int" where
  \<comment> \<open>The alignment \<^verbatim>\<open>switch (att[j]->attlen)\<close> of the cache-filling loop, which aligns on
      \<^verbatim>\<open>attlen > sizeof(int32)\<close> in its default case and raises otherwise.\<close>
  "index_att_align a off =
     (if attlen a = -1 then Inr (att_align_varlena a off)
      else if attlen a = 1 then Inr off
      else if attlen a = 2 then Inr (SHORTALIGN off)
      else if attlen a = 4 then Inr (INTALIGN off)
      else if attlen_gt_sizeof_int32 (attlen a) then Inr (att_align_default a off)
      else Inl ElogError)"

definition read_bitmap_byte :: "byte list option \<Rightarrow> nat \<Rightarrow> error + int" where
  \<comment> \<open>\<^verbatim>\<open>n = bp[i]\<close> with \<^verbatim>\<open>char n\<close>; \<^verbatim>\<open>char\<close> is signed.\<close>
  "read_bitmap_byte bp i =
     (case bp of None \<Rightarrow> Inl BadAccess
      | Some bs \<Rightarrow> if length bs \<le> i then Inl BadAccess else Inr (sint (bs ! i)))"

fun index_nulls_before :: "byte list option \<Rightarrow> nat \<Rightarrow> int \<Rightarrow> nat list \<Rightarrow> error + bool" where
  \<comment> \<open>\<^verbatim>\<open>for (; i <= byte; i++)\<close>: whole earlier bytes, then the bits of the last byte under
      \<^verbatim>\<open>mask = (finalbit << 1) - 1\<close>.\<close>
  "index_nulls_before bp byte finalbit [] = Inr False"
| "index_nulls_before bp byte finalbit (i # rest) =
     (case read_bitmap_byte bp i of
        Inl e \<Rightarrow> Inl e
      | Inr n \<Rightarrow>
          if i < byte then
            (if NOT n \<noteq> 0 then Inr True else index_nulls_before bp byte finalbit rest)
          else
            (let mask = 2 * finalbit - 1 in
             if (NOT n) AND mask \<noteq> 0 then Inr True
             else index_nulls_before bp byte finalbit rest))"

fun index_cache_fill :: "nat list \<Rightarrow> TupleDesc \<Rightarrow> int \<Rightarrow> error + TupleDesc" where
  "index_cache_fill [] att off = Inr att"
| "index_cache_fill (j # rest) att off =
     (case index_att_align (att ! j) off of
        Inl e \<Rightarrow> Inl e
      | Inr off' \<Rightarrow>
          index_cache_fill rest (att[j := (att ! j)\<lparr>attcacheoff := off'\<rparr>])
            (off' + attlen (att ! j)))"

definition index_walk_step :: "IndexTupleData \<Rightarrow> nat \<Rightarrow> walk_state \<Rightarrow> error + walk_state" where
  \<comment> \<open>The body of the careful walk \<^verbatim>\<open>for (i = 0; i < attnum; i++)\<close>.\<close>
  "index_walk_step tup i s =
     (case (if IndexTupleNoNulls tup then Inr False else att_isnull i (i_bits tup)) of
        Inl e \<Rightarrow> Inl e
      | Inr isnull \<Rightarrow>
          if isnull then Inr (s\<lparr>w_usecache := False\<rparr>)
          else
            (let a = w_att s ! i in
             if w_usecache s \<and> attcacheoff a > 0 \<and> attlen a \<noteq> -1
             then Inr (s\<lparr>w_off := attcacheoff a\<rparr>)
             else
               (let s1 = (if w_usecache s \<and> attcacheoff a > 0
                          then s\<lparr>w_off := attcacheoff a, w_usecache := False\<rparr> else s);
                    s2 = (if w_usecache s1
                          then s1\<lparr>w_att := (w_att s1)[i := a\<lparr>attcacheoff := w_off s1\<rparr>]\<rparr>
                          else s1)
                in if attlen a = 1 then Inr (s2\<lparr>w_off := w_off s2 + 1\<rparr>)
                   else if attlen a = 2 then Inr (s2\<lparr>w_off := SHORTALIGN (w_off s2) + 2\<rparr>)
                   else if attlen a = 4 then Inr (s2\<lparr>w_off := INTALIGN (w_off s2) + 4\<rparr>)
                   else if attlen a = -1 then
                     (let off = att_align_varlena a (w_off s2) in
                      case VARSIZE_at (i_data tup) off of
                        Inl e \<Rightarrow> Inl e
                      | Inr sz \<Rightarrow> Inr (s2\<lparr>w_off := off + sz, w_usecache := False\<rparr>))
                   else if attlen_gt_sizeof_int32 (attlen a)
                   then Inr (s2\<lparr>w_off := att_align_default a (w_off s2) + attlen a\<rparr>)
                   else Inl ElogError)))"

fun index_walk :: "IndexTupleData \<Rightarrow> nat list \<Rightarrow> walk_state \<Rightarrow> error + walk_state" where
  "index_walk tup [] s = Inr s"
| "index_walk tup (i # rest) s =
     (case index_walk_step tup i s of Inl e \<Rightarrow> Inl e | Inr s' \<Rightarrow> index_walk tup rest s')"

definition nocache_index_getattr ::
  "IndexTupleData \<Rightarrow> int \<Rightarrow> TupleDesc \<Rightarrow> error + Datum \<times> TupleDesc" where
  "nocache_index_getattr tup attnum1 att =
     (if attnum1 < 1 \<or> int (length att) < attnum1 then Inl BadAccess
      else
        (let attnum = nat (attnum1 - 1); tp = i_data tup in
         case (if IndexTupleNoNulls tup then Inr False
               else index_nulls_before (i_bits tup) (attnum div 8) (int (attnum mod 8))
                      [0..<attnum div 8 + 1]) of
           Inl e \<Rightarrow> Inl e
         | Inr slow1 \<Rightarrow>
             if \<not> slow1 \<and> attcacheoff (att ! attnum) > 0
             then fetch_with att attnum tp (attcacheoff (att ! attnum))
             else
               (let slow = (slow1 \<or> (\<not> IndexTupleAllFixed tup \<and> varlena_before att attnum)) in
                if \<not> slow then
                  (let att0 = att[0 := (att ! 0)\<lparr>attcacheoff := 0\<rparr>] in
                   case first_uncached att0 of
                     Inl e \<Rightarrow> Inl e
                   | Inr j \<Rightarrow>
                       (case index_cache_fill [j..<attnum + 1] att0
                               (attcacheoff (att0 ! (j - 1)) + attlen (att0 ! (j - 1))) of
                          Inl e \<Rightarrow> Inl e
                        | Inr att' \<Rightarrow> fetch_with att' attnum tp (attcacheoff (att' ! attnum))))
                else
                  (case index_walk tup [0..<attnum]
                          \<lparr>w_att = att, w_off = 0, w_usecache = True\<rparr> of
                     Inl e \<Rightarrow> Inl e
                   | Inr s \<Rightarrow>
                       (case heap_att_align (w_att s ! attnum) (w_off s) of
                          Inl e \<Rightarrow> Inl e
                        | Inr off \<Rightarrow> fetch_with (w_att s) attnum tp off)))))"

definition index_getattr ::
  "IndexTupleData \<Rightarrow> int \<Rightarrow> TupleDesc \<Rightarrow> error + (Datum \<times> bool) \<times> TupleDesc" where
  \<comment> \<open>Modelled from the spec: "given a built tuple and a 1-based attribute number, return the
      decoded value and an is-null flag"; "for attribute 1 and for attributes whose cached
      offset is already populated ... the accessor may trust \<open>cached_offset\<close> and jump
      directly". The macro is not in the source tree; \<^verbatim>\<open>nocache_index_getattr\<close> documents
      that it is called "only in cases where we can't use cacheoffset and the value is not
      null".\<close>
  "index_getattr tup attnum tupleDesc =
     (if attnum < 1 \<or> int (length tupleDesc) < attnum then Inl BadAccess
      else if IndexTupleNoNulls tup then
        (if attnum = 1 then
           (case fetchatt (tupleDesc ! 0) (i_data tup) 0 of
              Inl e \<Rightarrow> Inl e | Inr d \<Rightarrow> Inr ((d, False), tupleDesc))
         else if attcacheoff (tupleDesc ! nat (attnum - 1)) > 0 then
           (case fetchatt (tupleDesc ! nat (attnum - 1)) (i_data tup)
                   (attcacheoff (tupleDesc ! nat (attnum - 1))) of
              Inl e \<Rightarrow> Inl e | Inr d \<Rightarrow> Inr ((d, False), tupleDesc))
         else
           (case nocache_index_getattr tup attnum tupleDesc of
              Inl e \<Rightarrow> Inl e
            | Inr (d, att') \<Rightarrow> Inr ((d, False), att')))
      else
        (case att_isnull (nat (attnum - 1)) (i_bits tup) of
           Inl e \<Rightarrow> Inl e
         | Inr isnull \<Rightarrow>
             if isnull then Inr ((ByVal 0, True), tupleDesc)
             else
               (case nocache_index_getattr tup attnum tupleDesc of
                  Inl e \<Rightarrow> Inl e
                | Inr (d, att') \<Rightarrow> Inr ((d, False), att'))))"


subsection \<open>Example schemas and tuples\<close>

definition att_char :: AttributeTupleForm where
  "att_char = \<lparr>attlen = 1, attalign = CHR ''c'', attbyval = True, attcacheoff = 0\<rparr>"

definition att_int2 :: AttributeTupleForm where
  "att_int2 = \<lparr>attlen = 2, attalign = CHR ''s'', attbyval = True, attcacheoff = 0\<rparr>"

definition att_int4 :: AttributeTupleForm where
  "att_int4 = \<lparr>attlen = 4, attalign = CHR ''i'', attbyval = True, attcacheoff = 0\<rparr>"

definition att_text :: AttributeTupleForm where
  "att_text = \<lparr>attlen = -1, attalign = CHR ''i'', attbyval = False, attcacheoff = 0\<rparr>"

definition text_ab :: Datum where
  \<comment> \<open>the variable-length value "ab": a length word of 6 and two bytes\<close>
  "text_ab = ByRef [6, 0, 0, 0, 97, 98]"

definition desc_mixed :: TupleDesc where
  "desc_mixed = [att_char, att_text, att_int4, att_int2]"

definition val_mixed :: "Datum list" where
  "val_mixed = [ByVal 120, text_ab, ByVal 0, ByVal 5]"

definition att_float8 :: AttributeTupleForm where
  "att_float8 = \<lparr>attlen = 8, attalign = CHR ''d'', attbyval = False, attcacheoff = 0\<rparr>"

definition htup_mixed :: HeapTupleData where
  \<comment> \<open>\<^verbatim>\<open>heap_formtuple\<close> of \<open>desc_mixed\<close>, \<open>val_mixed\<close> with the third attribute null\<close>
  "htup_mixed = \<lparr>t_len = 52, t_ctid = 0, t_oid = 0, t_xmin = 0, t_cmin = 0, t_xmax = 0,
     t_cmax = 0, t_natts = 4, t_hoff = 40, t_infomask = 0x0803, t_bits = Some [11],
     t_data = [120, 0, 0, 0, 6, 0, 0, 0, 97, 98, 5, 0]\<rparr>"

definition desc_pair :: TupleDesc where
  "desc_pair = [att_int4, att_text]"

definition val_pair :: "Datum list" where
  "val_pair = [ByVal 7, text_ab]"

definition htup_pair :: HeapTupleData where
  \<comment> \<open>\<^verbatim>\<open>heap_formtuple\<close> of \<open>desc_pair\<close>, \<open>val_pair\<close> without nulls\<close>
  "htup_pair = \<lparr>t_len = 50, t_ctid = 0, t_oid = 0, t_xmin = 0, t_cmin = 0, t_xmax = 0,
     t_cmax = 0, t_natts = 2, t_hoff = 40, t_infomask = 0x0802, t_bits = None,
     t_data = [7, 0, 0, 0, 6, 0, 0, 0, 97, 98]\<rparr>"

definition desc_nullprefix :: TupleDesc where
  "desc_nullprefix = [att_int4, att_float8, att_int4, att_text, att_int4]"

definition val_nullprefix :: "Datum list" where
  "val_nullprefix = [ByVal 1, ByVal 0, ByVal 3, text_ab, ByVal 5]"

definition htup_nullprefix :: HeapTupleData where
  \<comment> \<open>\<^verbatim>\<open>heap_formtuple\<close> of \<open>desc_nullprefix\<close>, \<open>val_nullprefix\<close> with the second attribute null\<close>
  "htup_nullprefix = \<lparr>t_len = 60, t_ctid = 0, t_oid = 0, t_xmin = 0, t_cmin = 0, t_xmax = 0,
     t_cmax = 0, t_natts = 5, t_hoff = 40, t_infomask = 0x0803, t_bits = Some [29],
     t_data = [1, 0, 0, 0, 3, 0, 0, 0, 6, 0, 0, 0, 97, 98, 0, 0, 5, 0, 0, 0]\<rparr>"

definition itup_nullprefix :: IndexTupleData where
  \<comment> \<open>\<^verbatim>\<open>index_formtuple\<close> of the same inputs\<close>
  "itup_nullprefix = \<lparr>t_tid = 0, t_info = 0xC028, i_bits = Some [29, 0, 0, 0, 0, 0, 0, 0],
     i_data = [1, 0, 0, 0, 3, 0, 0, 0, 6, 0, 0, 0, 97, 98, 0, 0, 5, 0, 0, 0, 0, 0, 0, 0]\<rparr>"


definition desc_int4x5 :: TupleDesc where
  "desc_int4x5 = [att_int4, att_int4, att_int4, att_int4, att_int4]"

definition val_int4x5 :: "Datum list" where
  "val_int4x5 = [ByVal 10, ByVal 20, ByVal 30, ByVal 40, ByVal 50]"

definition itup_int4x5 :: IndexTupleData where
  \<comment> \<open>\<^verbatim>\<open>index_formtuple\<close> of five \<^verbatim>\<open>int4\<close> values, the second null\<close>
  "itup_int4x5 = \<lparr>t_tid = 0, t_info = 0x8020, i_bits = Some [29, 0, 0, 0, 0, 0, 0, 0],
     i_data = [10, 0, 0, 0, 30, 0, 0, 0, 40, 0, 0, 0, 50, 0, 0, 0]\<rparr>"

definition htup_int4x5 :: HeapTupleData where
  \<comment> \<open>\<^verbatim>\<open>heap_formtuple\<close> of the same inputs\<close>
  "htup_int4x5 = \<lparr>t_len = 56, t_ctid = 0, t_oid = 0, t_xmin = 0, t_cmin = 0, t_xmax = 0,
     t_cmax = 0, t_natts = 5, t_hoff = 40, t_infomask = 0x0801, t_bits = Some [29],
     t_data = [10, 0, 0, 0, 30, 0, 0, 0, 40, 0, 0, 0, 50, 0, 0, 0]\<rparr>"

definition desc_int2x6 :: TupleDesc where
  "desc_int2x6 = [att_int2, att_int2, att_int2, att_int2, att_int2, att_int2]"

definition val_int2x6 :: "Datum list" where
  "val_int2x6 = [ByVal 1, ByVal 2, ByVal 3, ByVal 4, ByVal 5, ByVal 6]"

definition htup_int2x6 :: HeapTupleData where
  \<comment> \<open>\<^verbatim>\<open>heap_formtuple\<close> of six \<^verbatim>\<open>int2\<close> values, the fourth null\<close>
  "htup_int2x6 = \<lparr>t_len = 50, t_ctid = 0, t_oid = 0, t_xmin = 0, t_cmin = 0, t_xmax = 0,
     t_cmax = 0, t_natts = 6, t_hoff = 40, t_infomask = 0x0801, t_bits = Some [55],
     t_data = [1, 0, 2, 0, 3, 0, 5, 0, 6, 0]\<rparr>"

definition itup_int2x6 :: IndexTupleData where
  \<comment> \<open>\<^verbatim>\<open>index_formtuple\<close> of the same inputs\<close>
  "itup_int2x6 = \<lparr>t_tid = 0, t_info = 0x8020, i_bits = Some [55, 0, 0, 0, 0, 0, 0, 0],
     i_data = [1, 0, 2, 0, 3, 0, 5, 0, 6, 0, 0, 0, 0, 0, 0, 0]\<rparr>"

definition desc_prealign :: TupleDesc where
  "desc_prealign = [att_char, att_int4, att_text, att_int4]"

definition val_prealign :: "Datum list" where
  "val_prealign = [ByVal 120, ByVal 7, text_ab, ByVal 9]"

definition itup_prealign :: IndexTupleData where
  \<comment> \<open>\<^verbatim>\<open>index_formtuple\<close> of \<open>desc_prealign\<close>, \<open>val_prealign\<close> without nulls\<close>
  "itup_prealign = \<lparr>t_tid = 0, t_info = 0x4020, i_bits = None,
     i_data = [120, 0, 0, 0, 7, 0, 0, 0, 6, 0, 0, 0, 97, 98, 0, 0, 9, 0, 0, 0, 0, 0, 0, 0]\<rparr>"

definition htup_prealign :: HeapTupleData where
  \<comment> \<open>\<^verbatim>\<open>heap_formtuple\<close> of the same inputs\<close>
  "htup_prealign = \<lparr>t_len = 60, t_ctid = 0, t_oid = 0, t_xmin = 0, t_cmin = 0, t_xmax = 0,
     t_cmax = 0, t_natts = 4, t_hoff = 40, t_infomask = 0x0802, t_bits = None,
     t_data = [120, 0, 0, 0, 7, 0, 0, 0, 6, 0, 0, 0, 97, 98, 0, 0, 9, 0, 0, 0]\<rparr>"

definition desc_seq :: TupleDesc where
  "desc_seq = [att_int4, att_int4, att_text, att_int4]"

definition desc_seq_cached :: TupleDesc where
  \<comment> \<open>\<open>desc_seq\<close> after the second attribute was read\<close>
  "desc_seq_cached = [att_int4, att_int4\<lparr>attcacheoff := 4\<rparr>, att_text, att_int4]"

definition val_seq :: "Datum list" where
  "val_seq = [ByVal 7, ByVal 8, text_ab, ByVal 9]"

definition itup_seq :: IndexTupleData where
  \<comment> \<open>\<^verbatim>\<open>index_formtuple\<close> of \<open>desc_seq\<close>, \<open>val_seq\<close> without nulls\<close>
  "itup_seq = \<lparr>t_tid = 0, t_info = 0x4020, i_bits = None,
     i_data = [7, 0, 0, 0, 8, 0, 0, 0, 6, 0, 0, 0, 97, 98, 0, 0, 9, 0, 0, 0, 0, 0, 0, 0]\<rparr>"

definition htup_seq :: HeapTupleData where
  \<comment> \<open>\<^verbatim>\<open>heap_formtuple\<close> of the same inputs\<close>
  "htup_seq = \<lparr>t_len = 60, t_ctid = 0, t_oid = 0, t_xmin = 0, t_cmin = 0, t_xmax = 0,
     t_cmax = 0, t_natts = 4, t_hoff = 40, t_infomask = 0x0802, t_bits = None,
     t_data = [7, 0, 0, 0, 8, 0, 0, 0, 6, 0, 0, 0, 97, 98, 0, 0, 9, 0, 0, 0]\<rparr>"

definition desc_len3 :: TupleDesc where
  \<comment> \<open>a corrupt schema: the second attribute declares three bytes\<close>
  "desc_len3 = [att_int4, att_int4\<lparr>attlen := 3\<rparr>]"

definition desc_mixed_len3 :: TupleDesc where
  \<comment> \<open>a corrupt schema: the fourth attribute declares three bytes and has a cached offset\<close>
  "desc_mixed_len3 = [att_char, att_text, att_int4, att_int2\<lparr>attlen := 3, attcacheoff := 10\<rparr>]"

definition desc_len3_cached :: TupleDesc where
  \<comment> \<open>\<open>desc_len3\<close> with a cached offset for the second attribute\<close>
  "desc_len3_cached = [att_int4, att_int4\<lparr>attlen := 3, attcacheoff := 4\<rparr>]"

definition desc_first_len3 :: TupleDesc where
  \<comment> \<open>a corrupt schema: the first attribute declares three bytes\<close>
  "desc_first_len3 = [att_int4\<lparr>attlen := 3\<rparr>, att_int4, att_int4, att_int4, att_int4]"

subsection \<open>Auxiliary notions of the proofs\<close>

definition bitmap_started :: "DataFill_state \<Rightarrow> bool" where
  \<comment> \<open>\<^verbatim>\<open>bitP\<close> points into the bitmap, or the next step moves it there.\<close>
  "bitmap_started s = (df_bits s \<noteq> [] \<or> df_bitmask s = CSIGNBIT)"

definition advance_bit :: "DataFill_state \<Rightarrow> DataFill_state" where
  \<comment> \<open>The first statement of the loop body of \<^verbatim>\<open>DataFill\<close> when a bitmap is written.\<close>
  "advance_bit s = (if df_bitmask s \<noteq> CSIGNBIT then s\<lparr>df_bitmask := 2 * df_bitmask s\<rparr>
                    else s\<lparr>df_bits := df_bits s @ [0], df_bitmask := 1\<rparr>)"

definition bitmap_inv :: "string \<Rightarrow> DataFill_state \<Rightarrow> bool" where
  \<comment> \<open>The state of \<^verbatim>\<open>DataFill\<close> after the attributes with the null flags \<open>ns\<close>.\<close>
  "bitmap_inv ns s \<longleftrightarrow>
     length (df_bits s) = (length ns + 7) div 8
   \<and> df_bitmask s = (if ns = [] then CSIGNBIT else 2 ^ ((length ns - 1) mod 8))
   \<and> (\<forall>j < length ns. bit (df_bits s ! (j div 8)) (j mod 8) \<longleftrightarrow> ns ! j \<noteq> CHR ''n'')
   \<and> (\<forall>j. length ns \<le> j \<longrightarrow> j < 8 * length (df_bits s) \<longrightarrow>
          \<not> bit (df_bits s ! (j div 8)) (j mod 8))
   \<and> (bit (df_infomask s) 0 \<longleftrightarrow> CHR ''n'' \<in> set ns)"

definition bad_attlen :: "int \<Rightarrow> bool" where
  \<comment> \<open>The lengths for which \<^verbatim>\<open>attlen < sizeof(int32)\<close> holds in a default case.\<close>
  "bad_attlen l = (l = 0 \<or> l = 3)"

definition heap_null_scan :: "HeapTupleData \<Rightarrow> nat \<Rightarrow> error + bool" where
  \<comment> \<open>What \<^verbatim>\<open>nocachegetattr\<close> knows of the nulls before the (0-based) attribute when it
      reaches \<^verbatim>\<open>if (!slow)\<close>: nothing to scan on a tuple without nulls, otherwise
      \<^verbatim>\<open>for (i = 0; i < attnum && !slow; i++) if (att_isnull(i, bp)) slow = 1;\<close>\<close>
  "heap_null_scan tup attnum =
     (if HeapTupleNoNulls tup then Inr False else nulls_before (t_bits tup) [0..<attnum])"

definition index_null_scan :: "IndexTupleData \<Rightarrow> nat \<Rightarrow> error + bool" where
  \<comment> \<open>The same for \<^verbatim>\<open>nocache_index_getattr\<close>: the scan over the bitmap bytes up to
      \<^verbatim>\<open>byte = attnum >> 3\<close> with \<^verbatim>\<open>finalbit = attnum & 0x07\<close>.\<close>
  "index_null_scan tup attnum =
     (if IndexTupleNoNulls tup then Inr False
      else index_nulls_before (i_bits tup) (attnum div 8) (int (attnum mod 8))
             [0..<attnum div 8 + 1])"

section \<open>Properties\<close>

lemmas align_defs = TYPEALIGN_def SHORTALIGN_def INTALIGN_def LONGALIGN_def DOUBLEALIGN_def
  att_align_default_def att_align_varlena_def attlen_lt_sizeof_int32_def
  attlen_gt_sizeof_int32_def

lemmas fill_defs = ComputeDataSize_def ComputeDataSize_step_def DataFill_def DataFill_step_def
  DataFill_attr_def scalar_bytes_def word_bytes_def align_data_def DatumGetPointer_def
  VARSIZE_def bytes_word_def bytes_nat_def memmove_from_def uint32_def hasnull_scan_def
  HEAP_HASVARLENA_def HEAP_HASNULL_def CSIGNBIT_def

lemmas heap_defs = heap_formtuple_def MaxHeapAttributeNumber_def sizeof_HeapTupleData_fixed_def
  BITMAPLEN_def HEAP_XMAX_INVALID_def HeapTupleNoNulls_def HeapTupleAllFixed_def
  att_isnull_def fetchatt_def VARSIZE_at_def heap_att_align_def varlena_before_def
  first_uncached_def heap_walk_step_def fetch_with_def nocachegetattr_def heap_getattr_def
  heap_attisnull_def heap_copytuple_def heap_modifytuple_def uint8_def

lemmas index_defs = index_formtuple_def MaxIndexAttributeNumber_def INDEX_NULL_MASK_def
  INDEX_VAR_MASK_def sizeof_IndexTupleData_def sizeof_IndexAttributeBitMapData_def
  IndexInfoFindDataOffset_def IndexTupleNoNulls_def IndexTupleAllFixed_def index_att_align_def
  read_bitmap_byte_def index_walk_step_def nocache_index_getattr_def index_getattr_def

lemmas example_defs = att_char_def att_int2_def att_int4_def att_text_def text_ab_def
  att_float8_def desc_mixed_def val_mixed_def desc_pair_def val_pair_def
  desc_nullprefix_def val_nullprefix_def

lemma replicate_numeral: "replicate (numeral k) x = x # replicate (pred_numeral k) x"
  by (simp add: numeral_eq_Suc)

lemmas eval_simps = replicate_numeral upt_rec Let_def

lemmas bug_defs = desc_int4x5_def val_int4x5_def itup_int4x5_def htup_int4x5_def
  desc_int2x6_def val_int2x6_def htup_int2x6_def itup_int2x6_def
  desc_prealign_def val_prealign_def itup_prealign_def htup_prealign_def
  desc_seq_def desc_seq_cached_def val_seq_def itup_seq_def htup_seq_def htup_pair_def
  htup_mixed_def htup_nullprefix_def desc_len3_def

lemmas all_defs = bug_defs example_defs index_defs heap_defs fill_defs align_defs eval_simps

lemmas check_defs = desc_mixed_len3_def desc_len3_cached_def desc_first_len3_def
  heap_null_scan_def index_null_scan_def itup_nullprefix_def

subsection \<open>Alignment arithmetic\<close>

lemma TYPEALIGN_shift:
  assumes "0 < a" "a dvd m"
  shows "TYPEALIGN a (x + m * k) = TYPEALIGN a x + m * k"
proof -
  from assms obtain c where m: "m = a * c" by (auto simp: dvd_def)
  have "(x + (a - 1) + (c * k) * a) div a = (x + (a - 1)) div a + c * k"
    using assms(1) by (subst div_mult_self1) auto
  then have "(x + a * c * k + (a - 1)) div a = (x + (a - 1)) div a + c * k"
    by (simp add: ac_simps)
  then show ?thesis
    unfolding TYPEALIGN_def m by (simp add: algebra_simps)
qed

lemma TYPEALIGN_mod:
  assumes "0 < a" "a dvd m"
  shows "TYPEALIGN a (x mod m) mod m = TYPEALIGN a x mod m"
proof -
  have "x mod m = x + m * (- (x div m))"
    by (simp add: minus_div_mult_eq_mod [symmetric] algebra_simps)
  then have "TYPEALIGN a (x mod m) = TYPEALIGN a x + m * (- (x div m))"
    using TYPEALIGN_shift [OF assms, of x "- (x div m)"] by simp
  then show ?thesis
    by (metis mod_mult_self2)
qed

lemma TYPEALIGN_ge: "0 < a \<Longrightarrow> x \<le> TYPEALIGN a x"
proof -
  assume a: "0 < a"
  have "(x + (a - 1)) mod a \<le> a - 1"
    using a pos_mod_bound [of a "x + (a - 1)"] by linarith
  moreover have "(x + (a - 1)) div a * a = (x + (a - 1)) - (x + (a - 1)) mod a"
    by (simp add: minus_mod_eq_div_mult)
  ultimately show ?thesis unfolding TYPEALIGN_def by linarith
qed

lemma TYPEALIGN_add_self: "0 < a \<Longrightarrow> TYPEALIGN a (x + a) = TYPEALIGN a x + a"
  using TYPEALIGN_shift [of a a x 1] by simp

lemma length_align_data:
  assumes "\<And>x. x \<le> f x"
  shows "int (length (align_data f d)) = f (int (length d))"
proof -
  have "int (length d) \<le> f (int (length d))" by (rule assms)
  then show ?thesis by (simp add: align_data_def)
qed


lemma uint32_align:
  assumes "a = 2 \<or> a = 4 \<or> a = (8::int)"
  shows "uint32 (TYPEALIGN a (uint32 x)) = uint32 (TYPEALIGN a x)"
proof -
  have "a dvd 2 ^ 32" "0 < a" using assms by auto
  then show ?thesis unfolding uint32_def by (rule TYPEALIGN_mod [rotated])
qed

lemma align_macros_ge:
  "x \<le> SHORTALIGN x" "x \<le> INTALIGN x" "x \<le> LONGALIGN x" "x \<le> DOUBLEALIGN x"
  "x \<le> att_align_default a x" "x \<le> att_align_varlena a x"
  by (simp_all add: SHORTALIGN_def INTALIGN_def LONGALIGN_def DOUBLEALIGN_def
        att_align_default_def att_align_varlena_def TYPEALIGN_ge)

lemma uint32_align_macros:
  "uint32 (SHORTALIGN (uint32 x)) = uint32 (SHORTALIGN x)"
  "uint32 (INTALIGN (uint32 x)) = uint32 (INTALIGN x)"
  "uint32 (att_align_default a (uint32 x)) = uint32 (att_align_default a x)"
  "uint32 (att_align_varlena a (uint32 x)) = uint32 (att_align_varlena a x)"
  by (simp_all add: SHORTALIGN_def INTALIGN_def LONGALIGN_def DOUBLEALIGN_def
        att_align_default_def att_align_varlena_def uint32_align)

lemma align_after_add:
  "SHORTALIGN (x + 2) = SHORTALIGN x + 2" "INTALIGN (x + 4) = INTALIGN x + 4"
  using TYPEALIGN_add_self [of 2 x] TYPEALIGN_add_self [of 4 x]
  by (simp_all add: SHORTALIGN_def INTALIGN_def)

subsection \<open>Size agreement\<close>

lemma memmove_from_length: "memmove_from p n = Inr bs \<Longrightarrow> int (length bs) = n"
  by (auto simp: memmove_from_def split: if_splits)

lemma scalar_bytes_length:
  "scalar_bytes byval n v = Inr bs \<Longrightarrow> n \<le> 4 \<Longrightarrow> length bs = n"
  by (auto simp: scalar_bytes_def word_bytes_def DatumGetPointer_def
      dest!: memmove_from_length split: if_splits Datum.splits)

lemma uint32_add_left: "uint32 (uint32 x + y) = uint32 (x + y)"
  unfolding uint32_def by (rule mod_add_left_eq)

lemma uint32_add_right: "uint32 (x + uint32 y) = uint32 (x + y)"
  unfolding uint32_def by (rule mod_add_right_eq)

lemma DataFill_attr_size:
  assumes "DataFill_attr a v s = Inr s'"
  shows "ComputeDataSize_step a v (CHR '' '') (uint32 (int (length (df_data s))))
           = Inr (uint32 (int (length (df_data s'))))"
proof -
  let ?n = "int (length (df_data s))"
  consider (var) "attlen a = -1" | (c1) "attlen a = 1" | (c2) "attlen a = 2" | (c4) "attlen a = 4"
    | (dflt) "attlen a \<noteq> -1" "attlen a \<noteq> 1" "attlen a \<noteq> 2" "attlen a \<noteq> 4" by blast
  then show ?thesis
  proof cases
    case var
    from assms var obtain p sz bs where p: "DatumGetPointer v = Inr p" and sz: "VARSIZE p = Inr sz"
      and bs: "memmove_from p (uint32 sz) = Inr bs"
      and s': "s' = s\<lparr>df_infomask := df_infomask s OR HEAP_HASVARLENA,
                       df_data := align_data (att_align_varlena a) (df_data s) @ bs\<rparr>"
      by (auto simp: DataFill_attr_def split: sum.splits)
    have len: "int (length (df_data s')) = att_align_varlena a ?n + uint32 sz"
      using memmove_from_length [OF bs] length_align_data [of "att_align_varlena a" "df_data s"]
      by (simp add: s' align_macros_ge)
    have "uint32 (att_align_varlena a (uint32 ?n) + sz)
          = uint32 (uint32 (att_align_varlena a (uint32 ?n)) + sz)"
      by (simp only: uint32_add_left)
    also have "\<dots> = uint32 (att_align_varlena a ?n + sz)"
      by (simp only: uint32_align_macros uint32_add_left)
    also have "\<dots> = uint32 (att_align_varlena a ?n + uint32 sz)"
      by (simp only: uint32_add_right)
    finally show ?thesis
      using var p sz len by (simp add: ComputeDataSize_step_def)
  next
    case c1
    from assms c1 obtain bs where bs: "scalar_bytes (attbyval a) 1 v = Inr bs"
      and s': "s' = s\<lparr>df_data := df_data s @ bs\<rparr>"
      by (auto simp: DataFill_attr_def split: sum.splits)
    have "length bs = 1" using scalar_bytes_length [OF bs] by simp
    then have len: "int (length (df_data s')) = ?n + 1" by (simp add: s')
    show ?thesis
      using c1 by (simp add: ComputeDataSize_step_def len uint32_add_left)
  next
    case c2
    from assms c2 obtain bs where bs: "scalar_bytes (attbyval a) 2 v = Inr bs"
      and s': "s' = s\<lparr>df_data := align_data SHORTALIGN (df_data s) @ bs\<rparr>"
      by (auto simp: DataFill_attr_def split: sum.splits)
    have "length bs = 2" using scalar_bytes_length [OF bs] by simp
    then have len: "int (length (df_data s')) = SHORTALIGN ?n + 2"
      using length_align_data [of SHORTALIGN "df_data s"] by (simp add: s' align_macros_ge)
    have "uint32 (SHORTALIGN (uint32 ?n + 2)) = uint32 (uint32 (SHORTALIGN (uint32 ?n)) + 2)"
      by (simp only: align_after_add uint32_add_left)
    also have "\<dots> = uint32 (SHORTALIGN ?n + 2)"
      by (simp only: uint32_align_macros uint32_add_left)
    finally show ?thesis
      using c2 len by (simp add: ComputeDataSize_step_def)
  next
    case c4
    from assms c4 obtain bs where bs: "scalar_bytes (attbyval a) 4 v = Inr bs"
      and s': "s' = s\<lparr>df_data := align_data INTALIGN (df_data s) @ bs\<rparr>"
      by (auto simp: DataFill_attr_def split: sum.splits)
    have "length bs = 4" using scalar_bytes_length [OF bs] by simp
    then have len: "int (length (df_data s')) = INTALIGN ?n + 4"
      using length_align_data [of INTALIGN "df_data s"] by (simp add: s' align_macros_ge)
    have "uint32 (INTALIGN (uint32 ?n + 4)) = uint32 (uint32 (INTALIGN (uint32 ?n)) + 4)"
      by (simp only: align_after_add uint32_add_left)
    also have "\<dots> = uint32 (INTALIGN ?n + 4)"
      by (simp only: uint32_align_macros uint32_add_left)
    finally show ?thesis
      using c4 len by (simp add: ComputeDataSize_step_def)
  next
    case dflt
    from assms dflt obtain p bs where ok: "\<not> attlen_lt_sizeof_int32 (attlen a)"
      and p: "DatumGetPointer v = Inr p" and bs: "memmove_from p (attlen a) = Inr bs"
      and s': "s' = s\<lparr>df_data := align_data (att_align_default a) (df_data s) @ bs\<rparr>"
      by (auto simp: DataFill_attr_def split: sum.splits if_splits)
    have len: "int (length (df_data s')) = att_align_default a ?n + attlen a"
      using memmove_from_length [OF bs] length_align_data [of "att_align_default a" "df_data s"]
      by (simp add: s' align_macros_ge)
    have "uint32 (att_align_default a (uint32 ?n) + attlen a)
          = uint32 (uint32 (att_align_default a (uint32 ?n)) + attlen a)"
      by (simp only: uint32_add_left)
    also have "\<dots> = uint32 (att_align_default a ?n + attlen a)"
      by (simp only: uint32_align_macros uint32_add_left)
    finally show ?thesis
      using dflt ok len by (simp add: ComputeDataSize_step_def)
  qed
qed

lemma DataFill_step_size:
  assumes "DataFill_step hasbit a v n s = Inr s'"
    and "n = CHR '' '' \<or> n = CHR ''n''" and "\<not> hasbit \<Longrightarrow> n = CHR '' ''"
  shows "ComputeDataSize_step a v n (uint32 (int (length (df_data s))))
           = Inr (uint32 (int (length (df_data s'))))"
proof (cases "n = CHR ''n''")
  case True
  with assms have "hasbit" by auto
  with True assms(1) have "df_data s' = df_data s"
    by (auto simp: DataFill_step_def Let_def split: if_splits)
  with True show ?thesis by (simp add: ComputeDataSize_step_def)
next
  case False
  with assms(2) have n: "n = CHR '' ''" by simp
  from assms(1) False obtain s2 where "DataFill_attr a v s2 = Inr s'" "df_data s2 = df_data s"
    by (auto simp: DataFill_step_def Let_def split: if_splits)
  then show ?thesis using DataFill_attr_size [of a v s2 s'] n by simp
qed

lemma DataFill_loop_size:
  assumes "DataFill_loop hasbit xs s = Inr s'"
    and "\<forall>(a, v, n) \<in> set xs. n = CHR '' '' \<or> n = CHR ''n''"
    and "\<not> hasbit \<Longrightarrow> \<forall>(a, v, n) \<in> set xs. n = CHR '' ''"
  shows "ComputeDataSize_loop xs (uint32 (int (length (df_data s))))
           = Inr (uint32 (int (length (df_data s'))))"
  using assms
proof (induction xs arbitrary: s)
  case Nil
  then show ?case by simp
next
  case (Cons x xs)
  obtain a v n where x: "x = (a, v, n)" by (cases x) auto
  from Cons.prems(1) x obtain s1 where s1: "DataFill_step hasbit a v n s = Inr s1"
    and rest: "DataFill_loop hasbit xs s1 = Inr s'"
    by (auto split: sum.splits)
  have "ComputeDataSize_step a v n (uint32 (int (length (df_data s))))
           = Inr (uint32 (int (length (df_data s1))))"
    using s1 Cons.prems(2,3) x by (intro DataFill_step_size) auto
  moreover have "ComputeDataSize_loop xs (uint32 (int (length (df_data s1))))
           = Inr (uint32 (int (length (df_data s'))))"
    using rest Cons.prems(2,3) by (intro Cons.IH) auto
  ultimately show ?case by (simp add: x)
qed

lemma zip3_nulls_in_take:
  assumes "(a, v, n) \<in> set (zip tupleDesc (zip val nulls))"
  shows "n \<in> set (take (length tupleDesc) nulls)"
proof -
  from assms obtain i where i: "i < length tupleDesc" "i < length nulls" "n = nulls ! i"
    by (auto simp: set_zip)
  then have "n = take (length tupleDesc) nulls ! i" "i < length (take (length tupleDesc) nulls)"
    by simp_all
  then show ?thesis by (metis nth_mem)
qed

text \<open>
  Claim C2. The size calculator predicts the serializer: whenever \<open>DataFill\<close> succeeds on
  a descriptor table, a values array and a nulls array whose flags are \<open>' '\<close> (not null)
  or \<open>'n'\<close> (null), called with a bitmap exactly when some flag is not \<open>' '\<close> (as both
  builders call it), \<open>ComputeDataSize\<close> succeeds on the same inputs and returns the
  number of bytes of the data region that \<open>DataFill\<close> has written, alignment padding
  included, as a \<^verbatim>\<open>uint32\<close>.
\<close>

theorem ComputeDataSize_predicts_DataFill:
  assumes "DataFill tupleDesc val nulls (hasnull_scan tupleDesc nulls) = Inr s"
    and "set (take (length tupleDesc) nulls) \<subseteq> {CHR '' '', CHR ''n''}"
  shows "ComputeDataSize tupleDesc val nulls = Inr (uint32 (int (length (df_data s))))"
proof -
  let ?xs = "zip tupleDesc (zip val nulls)"
  let ?s0 = "\<lparr>df_data = [], df_infomask = 0, df_bits = [],
              df_bitmask = (if hasnull_scan tupleDesc nulls then CSIGNBIT else 0)\<rparr>"
  from assms(1) have len: "\<not> (length val < length tupleDesc \<or> length nulls < length tupleDesc)"
    and loop: "DataFill_loop (hasnull_scan tupleDesc nulls) ?xs ?s0 = Inr s"
    by (auto simp: DataFill_def split: if_splits)
  have two: "\<forall>(a, v, n) \<in> set ?xs. n = CHR '' '' \<or> n = CHR ''n''"
    using assms(2) zip3_nulls_in_take by fastforce
  have none: "\<forall>(a, v, n) \<in> set ?xs. n = CHR '' ''" if "\<not> hasnull_scan tupleDesc nulls"
    using that zip3_nulls_in_take unfolding hasnull_scan_def list_ex_iff by fastforce
  have "ComputeDataSize_loop ?xs (uint32 (int (length (df_data ?s0))))
          = Inr (uint32 (int (length (df_data s))))"
    using loop two none by (rule DataFill_loop_size)
  then show ?thesis using len by (simp add: ComputeDataSize_def uint32_def)
qed


theorem ComputeDataSize_predicts_DataFill_witness:
  "DataFill desc_mixed val_mixed ''  n '' (hasnull_scan desc_mixed ''  n '')
     = Inr \<lparr>df_data = [120, 0, 0, 0, 6, 0, 0, 0, 97, 98, 5, 0], df_infomask = 3,
            df_bits = [11], df_bitmask = 8\<rparr>
   \<and> set (take (length desc_mixed) ''  n '') \<subseteq> {CHR '' '', CHR ''n''}
   \<and> ComputeDataSize desc_mixed val_mixed ''  n '' = Inr 12"
proof -
  have fill: "DataFill desc_mixed val_mixed ''  n '' (hasnull_scan desc_mixed ''  n '')
     = Inr \<lparr>df_data = [120, 0, 0, 0, 6, 0, 0, 0, 97, 98, 5, 0], df_infomask = 3,
            df_bits = [11], df_bitmask = 8\<rparr>"
    by (simp add: example_defs fill_defs align_defs eval_simps)
  have flags: "set (take (length desc_mixed) ''  n '') \<subseteq> {CHR '' '', CHR ''n''}"
    by (simp add: desc_mixed_def)
  show ?thesis
    using ComputeDataSize_predicts_DataFill [OF fill flags] fill flags
    by (simp add: uint32_def)
qed

subsection \<open>Null bitmap\<close>

lemma div8_mod8: "(k::nat) = 8 * (k div 8) + k mod 8" "k mod 8 < 8" by simp_all

lemma pred_mod8_of_full: "k \<noteq> 0 \<Longrightarrow> k mod 8 = 0 \<Longrightarrow> (k - 1) mod 8 = (7::nat)"
proof -
  assume a: "k \<noteq> 0" "k mod 8 = 0"
  then obtain q where q: "k = 8 * q" by (metis mod_0_imp_dvd dvdE)
  with a have "q \<noteq> 0" by auto
  then obtain p where "q = Suc p" by (cases q) auto
  with q have "k - 1 = 7 + 8 * p" by simp
  then show ?thesis by simp
qed
lemma bytes_of_full: "k mod 8 = 0 \<Longrightarrow> (k + 7) div 8 = k div (8::nat)"
  using div8_mod8 [of k] div8_mod8 [of "k + 7"] by linarith
lemma div8_less_full: "j < k \<Longrightarrow> k mod 8 = 0 \<Longrightarrow> j div 8 < k div (8::nat)"
  using div8_mod8 [of k] div8_mod8 [of j] by linarith
lemma div8_same_byte: "k \<le> j \<Longrightarrow> j < 8 * (k div 8 + 1) \<Longrightarrow> j div 8 = k div (8::nat)"
proof -
  assume a: "k \<le> j" "j < 8 * (k div 8 + 1)"
  have "k div 8 \<le> j div 8" using a(1) by (rule div_le_mono)
  moreover have "j div 8 < k div 8 + 1" using a(2) by (simp add: less_mult_imp_div_less mult.commute)
  ultimately show ?thesis by simp
qed
lemma bytes_of_partial: "k mod 8 \<noteq> 0 \<Longrightarrow> (k + 7) div 8 = k div 8 + (1::nat)"
  using div8_mod8 [of k] div8_mod8 [of "k + 7"] by linarith
lemma pred_mod8_of_partial: "k mod 8 \<noteq> 0 \<Longrightarrow> (k - 1) mod 8 + 1 = k mod (8::nat)"
proof -
  assume a: "k mod 8 \<noteq> 0"
  then obtain r where r: "k mod 8 = Suc r" by (cases "k mod 8") auto
  have "k = 8 * (k div 8) + Suc r" using div8_mod8(1) [of k] r by simp
  then have "k - 1 = r + 8 * (k div 8)" by simp
  moreover have "r < 8" using div8_mod8(2) [of k] r by simp
  ultimately have "(k - 1) mod 8 = r" by (metis mod_mult_self2 mod_less)
  then show ?thesis using r by simp
qed
lemma div8_mono_less: "j < k \<Longrightarrow> j div 8 \<le> k div (8::nat)"
  by (simp add: div_le_mono)

lemma pow2_eq_128: "m < 8 \<Longrightarrow> (2::int) ^ m = 128 \<longleftrightarrow> m = 7"
proof -
  have "(2::int) ^ m = 2 ^ 7 \<longleftrightarrow> m = 7" by (rule power_inject_exp) simp
  then show ?thesis by simp
qed

lemma advance_bit_fields [simp]:
  "df_infomask (advance_bit s) = df_infomask s" "df_data (advance_bit s) = df_data s"
  by (simp_all add: advance_bit_def)

lemma advance_bit_new_byte:
  assumes "bitmap_inv ns s" "length ns mod 8 = 0"
  shows "advance_bit s = s\<lparr>df_bits := df_bits s @ [0], df_bitmask := 1\<rparr>"
    and "length (df_bits s) = length ns div 8"
proof -
  let ?k = "length ns"
  have mask: "df_bitmask s = (if ns = [] then CSIGNBIT else 2 ^ ((?k - 1) mod 8))"
    using assms(1) by (simp add: bitmap_inv_def)
  have "df_bitmask s = CSIGNBIT"
  proof (cases "ns = []")
    case True
    then show ?thesis using mask by simp
  next
    case False
    then have "(?k - 1) mod 8 = 7" using assms(2) by (intro pred_mod8_of_full) simp_all
    then show ?thesis using mask False by (simp add: CSIGNBIT_def)
  qed
  then show "advance_bit s = s\<lparr>df_bits := df_bits s @ [0], df_bitmask := 1\<rparr>"
    by (simp add: advance_bit_def)
  show "length (df_bits s) = ?k div 8"
    using assms by (simp add: bitmap_inv_def bytes_of_full)
qed

lemma advance_bit_same_byte:
  assumes "bitmap_inv ns s" "length ns mod 8 \<noteq> 0"
  shows "advance_bit s = s\<lparr>df_bitmask := 2 ^ (length ns mod 8)\<rparr>"
    and "length (df_bits s) = length ns div 8 + 1"
proof -
  let ?k = "length ns"
  have ne: "ns \<noteq> []" using assms(2) by auto
  have mask: "df_bitmask s = 2 ^ ((?k - 1) mod 8)"
    using assms(1) ne by (simp add: bitmap_inv_def)
  have m: "(?k - 1) mod 8 + 1 = ?k mod 8" using assms(2) by (rule pred_mod8_of_partial)
  have "?k mod 8 < 8" by simp
  with m have lt: "(?k - 1) mod 8 < 7" by linarith
  then have "df_bitmask s \<noteq> CSIGNBIT"
    using mask pow2_eq_128 [of "(?k - 1) mod 8"] by (simp add: CSIGNBIT_def)
  moreover have "2 * df_bitmask s = 2 ^ (?k mod 8)"
    unfolding mask m [symmetric] by simp
  ultimately show "advance_bit s = s\<lparr>df_bitmask := 2 ^ (length ns mod 8)\<rparr>"
    by (simp add: advance_bit_def)
  show "length (df_bits s) = ?k div 8 + 1"
    using assms by (simp add: bitmap_inv_def bytes_of_partial)
qed

lemma advance_bit_props:
  assumes "bitmap_inv ns s"
  shows "length (df_bits (advance_bit s)) = length ns div 8 + 1"
    and "df_bitmask (advance_bit s) = 2 ^ (length ns mod 8)"
    and "\<And>j. j < length ns \<Longrightarrow>
           bit (df_bits (advance_bit s) ! (j div 8)) (j mod 8) \<longleftrightarrow> ns ! j \<noteq> CHR ''n''"
    and "\<And>j. length ns \<le> j \<Longrightarrow> j < 8 * (length ns div 8 + 1) \<Longrightarrow>
           \<not> bit (df_bits (advance_bit s) ! (j div 8)) (j mod 8)"
proof -
  let ?k = "length ns"
  have set: "\<And>j. j < ?k \<Longrightarrow> bit (df_bits s ! (j div 8)) (j mod 8) \<longleftrightarrow> ns ! j \<noteq> CHR ''n''"
    and clr: "\<And>j. ?k \<le> j \<Longrightarrow> j < 8 * length (df_bits s) \<Longrightarrow>
                \<not> bit (df_bits s ! (j div 8)) (j mod 8)"
    using assms by (simp_all add: bitmap_inv_def)
  show "length (df_bits (advance_bit s)) = ?k div 8 + 1"
    using advance_bit_new_byte [OF assms] advance_bit_same_byte [OF assms]
    by (cases "?k mod 8 = 0") simp_all
  show "df_bitmask (advance_bit s) = 2 ^ (?k mod 8)"
    using advance_bit_new_byte [OF assms] advance_bit_same_byte [OF assms]
    by (cases "?k mod 8 = 0") simp_all
  show "bit (df_bits (advance_bit s) ! (j div 8)) (j mod 8) \<longleftrightarrow> ns ! j \<noteq> CHR ''n''"
    if j: "j < ?k" for j
  proof (cases "?k mod 8 = 0")
    case True
    have "j div 8 < ?k div 8" using j True by (rule div8_less_full)
    then have "(df_bits s @ [0]) ! (j div 8) = df_bits s ! (j div 8)"
      using advance_bit_new_byte(2) [OF assms True] by (simp add: nth_append)
    then show ?thesis using advance_bit_new_byte(1) [OF assms True] set [OF j] by simp
  next
    case False
    then show ?thesis using advance_bit_same_byte(1) [OF assms False] set [OF j] by simp
  qed
  show "\<not> bit (df_bits (advance_bit s) ! (j div 8)) (j mod 8)"
    if j: "?k \<le> j" "j < 8 * (?k div 8 + 1)" for j
  proof (cases "?k mod 8 = 0")
    case True
    have "j div 8 = ?k div 8" using j by (rule div8_same_byte)
    then have "(df_bits s @ [0]) ! (j div 8) = 0"
      using advance_bit_new_byte(2) [OF assms True] by (simp add: nth_append)
    then show ?thesis using advance_bit_new_byte(1) [OF assms True] by simp
  next
    case False
    have "j < 8 * length (df_bits s)" using j(2) advance_bit_same_byte(2) [OF assms False] by simp
    then show ?thesis using advance_bit_same_byte(1) [OF assms False] clr [OF j(1)] by simp
  qed
qed


lemma set_last_as_update:
  "xs \<noteq> [] \<Longrightarrow> butlast xs @ [f (last xs)] = xs[length xs - 1 := f (xs ! (length xs - 1))]"
  by (cases xs rule: rev_cases) (simp_all add: nth_append)

lemma bit_or_mask:
  fixes b :: byte
  assumes "m < 8"
  shows "bit (b OR word_of_int (2 ^ m)) i \<longleftrightarrow> bit b i \<or> i = m"
proof -
  have "(word_of_int (2 ^ m) :: byte) = 2 ^ m" by simp
  then show ?thesis using assms by (auto simp: bit_or_iff bit_exp_iff)
qed

lemma same_byte_same_bit: "j div 8 = k div 8 \<Longrightarrow> j mod 8 = k mod 8 \<longleftrightarrow> j = (k::nat)"
  by (metis div_mult_mod_eq)

lemma DataFill_attr_infomask:
  "DataFill_attr a v s = Inr s' \<Longrightarrow>
   df_infomask s' = df_infomask s \<or> df_infomask s' = df_infomask s OR HEAP_HASVARLENA"
  by (auto simp: DataFill_attr_def split: sum.splits if_splits)

lemma DataFill_attr_infomask0:
  assumes "DataFill_attr a v s = Inr s'"
  shows "bit (df_infomask s') 0 = bit (df_infomask s) 0"
proof -
  have "bit (df_infomask s OR HEAP_HASVARLENA) 0 = bit (df_infomask s) 0"
    by (simp add: HEAP_HASVARLENA_def bit_0 even_or_iff)
  then show ?thesis using DataFill_attr_infomask [OF assms] by auto
qed

lemma DataFill_attr_bits:
  "DataFill_attr a v s = Inr s' \<Longrightarrow> df_bits s' = df_bits s \<and> df_bitmask s' = df_bitmask s"
  by (auto simp: DataFill_attr_def split: sum.splits if_splits)

lemma DataFill_step_advance:
  "DataFill_step True a v n s =
     (if n = CHR ''n'' then Inr ((advance_bit s)\<lparr>df_infomask := df_infomask s OR HEAP_HASNULL\<rparr>)
      else if df_bits (advance_bit s) = [] then Inl BadAccess
      else DataFill_attr a v
             ((advance_bit s)\<lparr>df_bits := butlast (df_bits (advance_bit s)) @
                 [last (df_bits (advance_bit s)) OR word_of_int (df_bitmask (advance_bit s))]\<rparr>))"
  by (simp add: DataFill_step_def advance_bit_def Let_def)

lemma DataFill_step_bitmap_inv:
  assumes inv: "bitmap_inv ns s" and step: "DataFill_step True a v n s = Inr s'"
  shows "bitmap_inv (ns @ [n]) s'"
proof -
  let ?k = "length ns"
  let ?s1 = "advance_bit s"
  note p = advance_bit_props [OF inv]
  have kin: "?k < 8 * (?k div 8 + 1)"
    using dividend_less_times_div [of 8 ?k] by simp
  have len': "(length (ns @ [n]) + 7) div 8 = ?k div 8 + 1" by simp
  have mask': "(if ns @ [n] = [] then CSIGNBIT else 2 ^ ((length (ns @ [n]) - 1) mod 8))
                 = (2::int) ^ (?k mod 8)" by simp
  have nth': "(ns @ [n]) ! j = (if j < ?k then ns ! j else n)" if "j < Suc ?k" for j
    using that by (auto simp: nth_append)
  show ?thesis
  proof (cases "n = CHR ''n''")
    case True
    with step have s': "s' = ?s1\<lparr>df_infomask := df_infomask s OR HEAP_HASNULL\<rparr>"
      by (simp add: DataFill_step_advance)
    have b1: "bit (df_bits s' ! (j div 8)) (j mod 8) \<longleftrightarrow> (ns @ [n]) ! j \<noteq> CHR ''n''"
      if "j < Suc ?k" for j
    proof (cases "j < ?k")
      case True
      then show ?thesis using p(3) [OF True] by (simp add: s' nth_append)
    next
      case False
      with that have "j = ?k" by simp
      then show ?thesis using p(4) [of ?k] kin \<open>n = CHR ''n''\<close> by (simp add: s')
    qed
    have b2: "\<not> bit (df_bits s' ! (j div 8)) (j mod 8)"
      if "Suc ?k \<le> j" "j < 8 * (?k div 8 + 1)" for j
      using p(4) [of j] that by (simp add: s')
    have "bit (df_infomask s') 0" by (simp add: s' HEAP_HASNULL_def bit_0 even_or_iff)
    then show ?thesis
      unfolding bitmap_inv_def using b1 b2 p(1,2) True
      by (simp add: s')
  next
    case False
    have ne: "df_bits ?s1 \<noteq> []" using p(1) by auto
    let ?bits2 = "(df_bits ?s1)[?k div 8 := df_bits ?s1 ! (?k div 8) OR word_of_int (2 ^ (?k mod 8))]"
    have upd: "butlast (df_bits ?s1) @ [last (df_bits ?s1) OR word_of_int (df_bitmask ?s1)] = ?bits2"
      using set_last_as_update [OF ne, of "\<lambda>b. b OR word_of_int (df_bitmask ?s1)"] p(1,2) by simp
    from step False ne upd have attr: "DataFill_attr a v (?s1\<lparr>df_bits := ?bits2\<rparr>) = Inr s'"
      by (simp add: DataFill_step_advance)
    have bits': "df_bits s' = ?bits2" and bm': "df_bitmask s' = 2 ^ (?k mod 8)"
      using DataFill_attr_bits [OF attr] p(2) by simp_all
    have im': "bit (df_infomask s') 0 = bit (df_infomask s) 0"
      using DataFill_attr_infomask0 [OF attr] by simp
    have bitj: "bit (?bits2 ! (j div 8)) (j mod 8)
                  \<longleftrightarrow> bit (df_bits ?s1 ! (j div 8)) (j mod 8) \<or> j = ?k"
      if "j < 8 * (?k div 8 + 1)" for j
    proof (cases "j div 8 = ?k div 8")
      case True
      have "?bits2 ! (j div 8) = df_bits ?s1 ! (?k div 8) OR word_of_int (2 ^ (?k mod 8))"
        using True p(1) by simp
      then show ?thesis using True bit_or_mask [of "?k mod 8"] same_byte_same_bit [OF True]
        by simp
    next
      case False
      then have "j \<noteq> ?k" by auto
      then show ?thesis using False by simp
    qed
    have b1: "bit (df_bits s' ! (j div 8)) (j mod 8) \<longleftrightarrow> (ns @ [n]) ! j \<noteq> CHR ''n''"
      if "j < Suc ?k" for j
    proof (cases "j < ?k")
      case True
      have "j < 8 * (?k div 8 + 1)" using True kin by simp
      then show ?thesis using bitj [of j] p(3) [OF True] True by (simp add: bits' nth_append)
    next
      case F: False
      with that have "j = ?k" by simp
      then show ?thesis using bitj [of ?k] kin \<open>n \<noteq> CHR ''n''\<close> by (simp add: bits')
    qed
    have b2: "\<not> bit (df_bits s' ! (j div 8)) (j mod 8)"
      if "Suc ?k \<le> j" "j < 8 * (?k div 8 + 1)" for j
      using p(4) [of j] bitj [of j] that by (simp add: bits')
    have len2: "length (df_bits s') = ?k div 8 + 1" using p(1) by (simp add: bits')
    have im: "bit (df_infomask s) 0 \<longleftrightarrow> CHR ''n'' \<in> set ns"
      using inv by (simp add: bitmap_inv_def)
    show ?thesis
      unfolding bitmap_inv_def using b1 b2 len2 bm' im' im False
      by simp
  qed
qed

lemma DataFill_loop_bitmap_inv:
  assumes "DataFill_loop True xs s = Inr s'" "bitmap_inv ns s"
  shows "bitmap_inv (ns @ map (\<lambda>(a, v, n). n) xs) s'"
  using assms
proof (induction xs arbitrary: s ns)
  case Nil
  then show ?case by simp
next
  case (Cons x xs)
  obtain a v n where x: "x = (a, v, n)" by (cases x) auto
  from Cons.prems(1) obtain s1 where s1: "DataFill_step True a v n s = Inr s1"
    "DataFill_loop True xs s1 = Inr s'"
    by (auto simp: x split: sum.splits)
  have "bitmap_inv (ns @ [n]) s1" using Cons.prems(2) s1(1) by (rule DataFill_step_bitmap_inv)
  with s1(2) have "bitmap_inv ((ns @ [n]) @ map (\<lambda>(a, v, n). n) xs) s'" by (rule Cons.IH)
  then show ?case by (simp add: x)
qed


lemma zip3_flags:
  assumes "length d \<le> length v" "length d \<le> length ns"
  shows "map (\<lambda>(a, v, n). n) (zip d (zip v ns)) = take (length d) ns"
proof -
  have "map (\<lambda>(a, v, n). n) (zip d (zip v ns)) = map snd (map snd (zip d (zip v ns)))"
    by (simp add: case_prod_beta)
  also have "\<dots> = take (length d) ns"
    using assms by (simp add: map_snd_zip_take take_map [symmetric] min_def)
  finally show ?thesis .
qed

lemma DataFill_bitmap:
  assumes "DataFill tupleDesc val nulls True = Inr s"
  shows "bitmap_inv (take (length tupleDesc) nulls) s"
proof -
  let ?s0 = "\<lparr>df_data = [], df_infomask = 0, df_bits = [], df_bitmask = CSIGNBIT\<rparr>"
  from assms have len: "length tupleDesc \<le> length val" "length tupleDesc \<le> length nulls"
    and loop: "DataFill_loop True (zip tupleDesc (zip val nulls)) ?s0 = Inr s"
    by (auto simp: DataFill_def split: if_splits)
  have "bitmap_inv [] ?s0" by (simp add: bitmap_inv_def)
  with loop have "bitmap_inv ([] @ map (\<lambda>(a, v, n). n) (zip tupleDesc (zip val nulls))) s"
    by (rule DataFill_loop_bitmap_inv)
  then show ?thesis using zip3_flags [OF len] by simp
qed

lemma DataFill_loop_nobit_infomask0:
  "DataFill_loop False xs s = Inr s' \<Longrightarrow> bit (df_infomask s') 0 = bit (df_infomask s) 0"
proof (induction xs arbitrary: s)
  case Nil
  then show ?case by simp
next
  case (Cons x xs)
  obtain a v n where x: "x = (a, v, n)" by (cases x) auto
  from Cons.prems obtain s1 where s1: "DataFill_attr a v s = Inr s1"
    "DataFill_loop False xs s1 = Inr s'"
    by (auto simp: x DataFill_step_def split: sum.splits)
  show ?case using Cons.IH [OF s1(2)] DataFill_attr_infomask0 [OF s1(1)] by simp
qed

lemma HeapTupleNoNulls_bit0: "HeapTupleNoNulls tup \<longleftrightarrow> \<not> bit (t_infomask tup) 0"
  by (simp add: HeapTupleNoNulls_def HEAP_HASNULL_def and_one_eq bit_0 even_iff_mod_2_eq_zero)

lemma bitmap_byte_exists: "i < n \<Longrightarrow> i div 8 < (n + 7) div (8::nat)"
proof -
  assume "i < n"
  then have "(i + 8) div 8 \<le> (n + 7) div 8" by (intro div_le_mono) simp
  then show ?thesis by simp
qed

lemma heap_walk_step_no_bitmap:
  "HeapTupleNoNulls tup \<Longrightarrow> heap_walk_step (tup\<lparr>t_bits := b\<rparr>) i s = heap_walk_step tup i s"
  by (simp add: heap_walk_step_def HeapTupleNoNulls_def Let_def cong: sum.case_cong if_cong)

lemma heap_walk_no_bitmap:
  "HeapTupleNoNulls tup \<Longrightarrow> heap_walk (tup\<lparr>t_bits := b\<rparr>) js s = heap_walk tup js s"
  by (induction js arbitrary: s) (simp_all add: heap_walk_step_no_bitmap split: sum.splits)

lemma readers_check_flag_first:
  assumes "HeapTupleNoNulls tup"
  shows "heap_attisnull (tup\<lparr>t_bits := b\<rparr>) attnum = heap_attisnull tup attnum"
    and "nocachegetattr (tup\<lparr>t_bits := b\<rparr>) attnum att = nocachegetattr tup attnum att"
proof -
  have nn: "HeapTupleNoNulls (tup\<lparr>t_bits := b\<rparr>)" using assms by (simp add: HeapTupleNoNulls_def)
  show "heap_attisnull (tup\<lparr>t_bits := b\<rparr>) attnum = heap_attisnull tup attnum"
    using assms nn by (simp add: heap_attisnull_def)
  have af: "HeapTupleAllFixed (tup\<lparr>t_bits := b\<rparr>) = HeapTupleAllFixed tup"
    by (simp add: HeapTupleAllFixed_def)
  show "nocachegetattr (tup\<lparr>t_bits := b\<rparr>) attnum att = nocachegetattr tup attnum att"
    unfolding nocachegetattr_def Let_def using assms nn af
    by (simp add: heap_walk_no_bitmap cong: sum.case_cong if_cong)
qed


text \<open>
  Claim C6. For a row tuple built by \<open>heap_formtuple\<close> from flags \<open>' '\<close> and \<open>'n'\<close>: when
  some attribute is null, the "has null" flag is set and the bitmap written by \<open>DataFill\<close>
  has \<open>ceil(natts / 8)\<close> bytes in which bit \<open>i\<close> is set exactly when attribute \<open>i\<close> is
  not null; when no attribute is null, the flag is clear and no bitmap is stored. The
  reader \<open>heap_attisnull\<close> answers from the flag and the bitmap what the flags said, and
  on a tuple whose flag is clear neither \<open>heap_attisnull\<close> nor \<open>nocachegetattr\<close> looks at
  the bitmap storage: an absent bitmap reads as all ones.
\<close>

theorem null_bitmap_convention:
  assumes form: "heap_formtuple tupleDesc val nulls = Inr tup"
    and flags: "set (take (length tupleDesc) nulls) \<subseteq> {CHR '' '', CHR ''n''}"
  shows "(if CHR ''n'' \<in> set (take (length tupleDesc) nulls)
          then \<not> HeapTupleNoNulls tup
             \<and> (\<exists>bs. t_bits tup = Some bs \<and> length bs = (length tupleDesc + 7) div 8
                  \<and> (\<forall>i < length tupleDesc. bit (bs ! (i div 8)) (i mod 8) \<longleftrightarrow> nulls ! i \<noteq> CHR ''n''))
          else HeapTupleNoNulls tup \<and> t_bits tup = None)
       \<and> (\<forall>attnum. 1 \<le> attnum \<and> attnum \<le> int (length tupleDesc) \<longrightarrow>
             heap_attisnull tup attnum = Inr (if nulls ! nat (attnum - 1) = CHR ''n'' then 1 else 0))
       \<and> (HeapTupleNoNulls tup \<longrightarrow>
             (\<forall>b attnum att. heap_attisnull (tup\<lparr>t_bits := b\<rparr>) attnum = heap_attisnull tup attnum
                \<and> nocachegetattr (tup\<lparr>t_bits := b\<rparr>) attnum att = nocachegetattr tup attnum att))"
proof -
  let ?n = "length tupleDesc"
  let ?ns = "take ?n nulls"
  let ?hn = "hasnull_scan tupleDesc nulls"
  from form obtain sz s where len: "?n \<le> length val" "?n \<le> length nulls"
    and fill: "DataFill tupleDesc val nulls ?hn = Inr s"
    and tup: "t_bits tup = (if ?hn then Some (df_bits s) else None)"
      "t_infomask tup = df_infomask s OR HEAP_XMAX_INVALID" "t_natts tup = int ?n"
    by (auto simp: heap_formtuple_def Let_def split: if_splits sum.splits)
  have hn: "?hn \<longleftrightarrow> CHR ''n'' \<in> set ?ns"
    using flags unfolding hasnull_scan_def list_ex_iff by auto
  have bit0: "bit (t_infomask tup) 0 = bit (df_infomask s) 0"
    by (simp add: tup HEAP_XMAX_INVALID_def bit_0 even_or_iff)
  have nth: "?ns ! i = nulls ! i" if "i < ?n" for i using that by simp
  have part1: "\<not> HeapTupleNoNulls tup
             \<and> (\<exists>bs. t_bits tup = Some bs \<and> length bs = (?n + 7) div 8
                  \<and> (\<forall>i < ?n. bit (bs ! (i div 8)) (i mod 8) \<longleftrightarrow> nulls ! i \<noteq> CHR ''n''))"
    if n: "CHR ''n'' \<in> set ?ns"
  proof -
    from n hn fill have "bitmap_inv ?ns s" by (auto intro: DataFill_bitmap)
    then have inv: "length (df_bits s) = (length ?ns + 7) div 8"
      "\<forall>j < length ?ns. bit (df_bits s ! (j div 8)) (j mod 8) \<longleftrightarrow> ?ns ! j \<noteq> CHR ''n''"
      "bit (df_infomask s) 0 \<longleftrightarrow> CHR ''n'' \<in> set ?ns"
      by (simp_all add: bitmap_inv_def)
    have l: "length ?ns = ?n" using len by simp
    show ?thesis
      using inv n hn l by (simp add: HeapTupleNoNulls_bit0 bit0 tup(1))
  qed
  have part2: "HeapTupleNoNulls tup \<and> t_bits tup = None" if n: "CHR ''n'' \<notin> set ?ns"
  proof -
    from n hn fill have "DataFill tupleDesc val nulls False = Inr s" by simp
    then have "bit (df_infomask s) 0 = bit (0 :: 16 word) 0"
      using DataFill_loop_nobit_infomask0 [of "zip tupleDesc (zip val nulls)" _ s]
      by (auto simp: DataFill_def split: if_splits)
    then show ?thesis using n hn by (simp add: HeapTupleNoNulls_bit0 bit0 tup(1))
  qed
  have part3: "heap_attisnull tup attnum = Inr (if nulls ! nat (attnum - 1) = CHR ''n'' then 1 else 0)"
    if a: "1 \<le> attnum" "attnum \<le> int ?n" for attnum
  proof -
    let ?i = "nat (attnum - 1)"
    have i: "?i < ?n" using a by simp
    have ii: "nulls ! ?i \<in> set ?ns" using i len by (metis nth nth_mem length_take min.absorb2)
    show ?thesis
    proof (cases "CHR ''n'' \<in> set ?ns")
      case True
      from part1 [OF True] obtain bs where bs: "\<not> HeapTupleNoNulls tup" "t_bits tup = Some bs"
        "length bs = (?n + 7) div 8"
        "\<forall>i < ?n. bit (bs ! (i div 8)) (i mod 8) \<longleftrightarrow> nulls ! i \<noteq> CHR ''n''"
        by blast
      have "?i div 8 < length bs" using i bs(3) by (simp add: bitmap_byte_exists)
      then show ?thesis using a bs i by (simp add: heap_attisnull_def tup(3) att_isnull_def)
    next
      case False
      with ii have "nulls ! ?i \<noteq> CHR ''n''" by auto
      then show ?thesis using part2 [OF False] a by (simp add: heap_attisnull_def tup(3))
    qed
  qed
  show ?thesis using part1 part2 part3 readers_check_flag_first by simp
qed

theorem null_bitmap_convention_witness:
  "heap_formtuple desc_mixed val_mixed ''  n '' = Inr htup_mixed
   \<and> set (take (length desc_mixed) ''  n '') \<subseteq> {CHR '' '', CHR ''n''}
   \<and> CHR ''n'' \<in> set (take (length desc_mixed) ''  n '')
   \<and> \<not> HeapTupleNoNulls htup_mixed
   \<and> heap_attisnull htup_mixed 3 = Inr 1 \<and> heap_attisnull htup_mixed 4 = Inr 0"
proof -
  have form: "heap_formtuple desc_mixed val_mixed ''  n '' = Inr htup_mixed"
    by (simp add: example_defs htup_mixed_def heap_formtuple_def MaxHeapAttributeNumber_def
        sizeof_HeapTupleData_fixed_def BITMAPLEN_def HEAP_XMAX_INVALID_def fill_defs align_defs
        eval_simps)
  have flags: "set (take (length desc_mixed) ''  n '') \<subseteq> {CHR '' '', CHR ''n''}"
    by (simp add: desc_mixed_def)
  have n: "CHR ''n'' \<in> set (take (length desc_mixed) ''  n '')"
    by (simp add: desc_mixed_def)
  note c = null_bitmap_convention [OF form flags]
  have "\<not> HeapTupleNoNulls htup_mixed" using c n by simp
  moreover have "heap_attisnull htup_mixed 3 = Inr 1"
    using c [THEN conjunct2, THEN conjunct1, rule_format, of 3] by (simp add: desc_mixed_def)
  moreover have "heap_attisnull htup_mixed 4 = Inr 0"
    using c [THEN conjunct2, THEN conjunct1, rule_format, of 4] by (simp add: desc_mixed_def)
  ultimately show ?thesis using form flags n by simp
qed


subsection \<open>Null attributes take no room\<close>

text \<open>
  The builders skip a null attribute. Removing an attribute whose flag is not \<open>' '\<close> from
  the descriptor table, the values and the flags leaves the result of \<open>ComputeDataSize\<close>
  unchanged, so neither its size nor its alignment padding is counted; removing an attribute
  whose flag is \<open>'n'\<close> leaves the bytes that \<open>DataFill\<close> writes to the data region
  unchanged.
\<close>

lemma ComputeDataSize_loop_append:
  "ComputeDataSize_loop (xs @ ys) dl =
     (case ComputeDataSize_loop xs dl of Inl e \<Rightarrow> Inl e | Inr dl' \<Rightarrow> ComputeDataSize_loop ys dl')"
  by (induction xs arbitrary: dl) (auto split: sum.splits)

lemma ComputeDataSize_loop_skip_null:
  assumes "n \<noteq> CHR '' ''"
  shows "ComputeDataSize_loop (xs @ (a, v, n) # ys) dl = ComputeDataSize_loop (xs @ ys) dl"
  using assms by (simp add: ComputeDataSize_loop_append ComputeDataSize_step_def split: sum.splits)

lemma DataFill_attr_data:
  "df_data s = df_data t \<Longrightarrow>
   map_sum id df_data (DataFill_attr a v s) = map_sum id df_data (DataFill_attr a v t)"
  by (auto simp: DataFill_attr_def split: sum.splits)

lemma DataFill_step_started:
  assumes "DataFill_step True a v n s = Inr s'" "bitmap_started s"
  shows "bitmap_started s'"
  using assms
  by (auto simp: DataFill_step_def bitmap_started_def Let_def CSIGNBIT_def
      dest!: DataFill_attr_bits split: if_splits)

lemma DataFill_step_data:
  assumes "df_data s = df_data t" "bitmap_started s" "bitmap_started t"
  shows "map_sum id df_data (DataFill_step True a v n s) = map_sum id df_data (DataFill_step True a v n t)"
proof (cases "n = CHR ''n''")
  case True
  then show ?thesis using assms(1) by (simp add: DataFill_step_def Let_def)
next
  case False
  let ?adv = "\<lambda>s. if df_bitmask s \<noteq> CSIGNBIT then s\<lparr>df_bitmask := 2 * df_bitmask s\<rparr>
                   else s\<lparr>df_bits := df_bits s @ [0], df_bitmask := 1\<rparr>"
  have ne: "df_bits (?adv s) \<noteq> []" "df_bits (?adv t) \<noteq> []"
    using assms(2,3) by (auto simp: bitmap_started_def)
  have "map_sum id df_data (DataFill_attr a v ((?adv s)\<lparr>df_bits := butlast (df_bits (?adv s)) @
            [last (df_bits (?adv s)) OR word_of_int (df_bitmask (?adv s))]\<rparr>))
      = map_sum id df_data (DataFill_attr a v ((?adv t)\<lparr>df_bits := butlast (df_bits (?adv t)) @
            [last (df_bits (?adv t)) OR word_of_int (df_bitmask (?adv t))]\<rparr>))"
    by (rule DataFill_attr_data) (use assms(1) in auto)
  then show ?thesis
    using False ne unfolding DataFill_step_def Let_def by simp
qed

lemma DataFill_loop_data:
  assumes "df_data s = df_data t" "bitmap_started s" "bitmap_started t"
  shows "map_sum id df_data (DataFill_loop True xs s) = map_sum id df_data (DataFill_loop True xs t)"
  using assms
proof (induction xs arbitrary: s t)
  case Nil
  then show ?case by simp
next
  case (Cons x xs)
  obtain a v n where x: "x = (a, v, n)" by (cases x) auto
  have step: "map_sum id df_data (DataFill_step True a v n s)
            = map_sum id df_data (DataFill_step True a v n t)"
    using Cons.prems by (rule DataFill_step_data)
  show ?case
  proof (cases "DataFill_step True a v n s")
    case (Inl e)
    with step show ?thesis by (cases "DataFill_step True a v n t") (auto simp: x)
  next
    case (Inr s1)
    with step obtain t1 where t1: "DataFill_step True a v n t = Inr t1" "df_data s1 = df_data t1"
      by (cases "DataFill_step True a v n t") auto
    have "bitmap_started s1" "bitmap_started t1"
      using Inr t1 Cons.prems DataFill_step_started by blast+
    then show ?thesis using Cons.IH [OF t1(2)] Inr t1 by (simp add: x)
  qed
qed

lemma DataFill_loop_append:
  "DataFill_loop hb (xs @ ys) s =
     (case DataFill_loop hb xs s of Inl e \<Rightarrow> Inl e | Inr s' \<Rightarrow> DataFill_loop hb ys s')"
  by (induction xs arbitrary: s) (auto split: sum.splits)

lemma DataFill_loop_started:
  "DataFill_loop True xs s = Inr s' \<Longrightarrow> bitmap_started s \<Longrightarrow> bitmap_started s'"
proof (induction xs arbitrary: s)
  case Nil
  then show ?case by simp
next
  case (Cons x xs)
  obtain a v n where x: "x = (a, v, n)" by (cases x) auto
  from Cons.prems(1) obtain s1 where s1: "DataFill_step True a v n s = Inr s1"
    "DataFill_loop True xs s1 = Inr s'"
    by (auto simp: x split: sum.splits)
  have "bitmap_started s1" using s1(1) Cons.prems(2) by (rule DataFill_step_started)
  with s1(2) show ?case by (rule Cons.IH)
qed

lemma DataFill_loop_skip_null:
  assumes "bitmap_started s"
  shows "map_sum id df_data (DataFill_loop True (xs @ (a, v, CHR ''n'') # ys) s)
       = map_sum id df_data (DataFill_loop True (xs @ ys) s)"
proof (cases "DataFill_loop True xs s")
  case (Inl e)
  then show ?thesis by (simp add: DataFill_loop_append)
next
  case (Inr s1)
  then have st: "bitmap_started s1" using assms DataFill_loop_started by blast
  obtain s2 where s2: "DataFill_step True a v (CHR ''n'') s1 = Inr s2" "df_data s2 = df_data s1"
    by (simp add: DataFill_step_def Let_def)
  then have "bitmap_started s2" using st DataFill_step_started by blast
  then have "map_sum id df_data (DataFill_loop True ys s2) = map_sum id df_data (DataFill_loop True ys s1)"
    using s2(2) st by (intro DataFill_loop_data)
  then show ?thesis using Inr s2 by (simp add: DataFill_loop_append)
qed


lemma zip3_insert:
  assumes "length d1 = length v1" "length d1 = length n1"
  shows "zip (d1 @ a # d2) (zip (v1 @ v # v2) (n1 @ n # n2))
           = zip d1 (zip v1 n1) @ (a, v, n) # zip d2 (zip v2 n2)"
    and "zip (d1 @ d2) (zip (v1 @ v2) (n1 @ n2)) = zip d1 (zip v1 n1) @ zip d2 (zip v2 n2)"
  using assms by simp_all

lemma ComputeDataSize_skip_null:
  assumes "length d1 = length v1" "length d1 = length n1" "n \<noteq> CHR '' ''"
  shows "ComputeDataSize (d1 @ a # d2) (v1 @ v # v2) (n1 @ n # n2)
           = ComputeDataSize (d1 @ d2) (v1 @ v2) (n1 @ n2)"
proof -
  have "ComputeDataSize_loop (zip d1 (zip v1 n1) @ (a, v, n) # zip d2 (zip v2 n2)) 0
      = ComputeDataSize_loop (zip d1 (zip v1 n1) @ zip d2 (zip v2 n2)) 0"
    using assms(3) by (rule ComputeDataSize_loop_skip_null)
  then show ?thesis
    using assms(1,2) zip3_insert [OF assms(1,2)]
    by (simp add: ComputeDataSize_def)
qed

lemma DataFill_skip_null:
  assumes "length d1 = length v1" "length d1 = length n1"
  shows "map_sum id df_data (DataFill (d1 @ a # d2) (v1 @ v # v2) (n1 @ CHR ''n'' # n2) True)
           = map_sum id df_data (DataFill (d1 @ d2) (v1 @ v2) (n1 @ n2) True)"
proof -
  let ?s0 = "\<lparr>df_data = [], df_infomask = 0, df_bits = [], df_bitmask = CSIGNBIT\<rparr>"
  have "bitmap_started ?s0" by (simp add: bitmap_started_def)
  then have "map_sum id df_data
        (DataFill_loop True (zip d1 (zip v1 n1) @ (a, v, CHR ''n'') # zip d2 (zip v2 n2)) ?s0)
      = map_sum id df_data (DataFill_loop True (zip d1 (zip v1 n1) @ zip d2 (zip v2 n2)) ?s0)"
    by (rule DataFill_loop_skip_null)
  then show ?thesis
    using assms zip3_insert [OF assms]
    by (simp add: DataFill_def)
qed

subsection \<open>Tuple copy\<close>

text \<open>
  Claim C10. \<open>heap_copytuple\<close> returns the null pointer for an invalid (null) tuple pointer;
  it raises the fatal error, allocating and copying nothing, for a tuple whose stored length
  \<^verbatim>\<open>t_len\<close> exceeds \<open>MAXTUPLEN\<close>; otherwise, for a tuple whose \<^verbatim>\<open>t_len\<close> bytes lie in
  its buffer, it returns a duplicate of exactly \<^verbatim>\<open>t_len\<close> bytes: the header and bitmap
  (\<^verbatim>\<open>t_hoff\<close> bytes) and the first \<^verbatim>\<open>t_len - t_hoff\<close> bytes of the data region.
\<close>

theorem heap_copytuple_interface:
  "heap_copytuple MAXTUPLEN None = Inr None
   \<and> (MAXTUPLEN < t_len t \<longrightarrow> heap_copytuple MAXTUPLEN (Some t) = Inl ElogError)
   \<and> (t_len t \<le> MAXTUPLEN \<and> t_hoff t \<le> t_len t \<and> t_len t - t_hoff t \<le> int (length (t_data t))
        \<longrightarrow> heap_copytuple MAXTUPLEN (Some t)
              = Inr (Some (t\<lparr>t_data := take (nat (t_len t - t_hoff t)) (t_data t)\<rparr>))
            \<and> t_hoff t + int (length (take (nat (t_len t - t_hoff t)) (t_data t))) = t_len t)"
  by (auto simp: heap_copytuple_def)

theorem heap_copytuple_interface_witness:
  "(8192 < t_len (htup_pair\<lparr>t_len := 9000\<rparr>)
      \<and> heap_copytuple 8192 (Some (htup_pair\<lparr>t_len := 9000\<rparr>)) = Inl ElogError)
   \<and> (t_len htup_pair \<le> 8192 \<and> t_hoff htup_pair \<le> t_len htup_pair
       \<and> t_len htup_pair - t_hoff htup_pair \<le> int (length (t_data htup_pair))
       \<and> heap_copytuple 8192 (Some htup_pair) = Inr (Some htup_pair))"
  using heap_copytuple_interface [of 8192 "htup_pair\<lparr>t_len := 9000\<rparr>"]
    heap_copytuple_interface [of 8192 htup_pair]
  by (simp add: htup_pair_def)


subsection \<open>Attribute numbers and lengths outside the schema\<close>

lemma heap_att_align_bad: "bad_attlen (attlen a) \<Longrightarrow> heap_att_align a off = Inl ElogError"
  by (auto simp: heap_att_align_def bad_attlen_def attlen_lt_sizeof_int32_def)

lemma index_att_align_bad: "bad_attlen (attlen a) \<Longrightarrow> index_att_align a off = Inl ElogError"
  by (auto simp: index_att_align_def bad_attlen_def attlen_gt_sizeof_int32_def)

lemma heap_att_align_Inl: "heap_att_align a off = Inl e \<Longrightarrow> e = ElogError"
  by (auto simp: heap_att_align_def split: if_splits)

lemma index_att_align_Inl: "index_att_align a off = Inl e \<Longrightarrow> e = ElogError"
  by (auto simp: index_att_align_def split: if_splits)

lemma heap_cache_fill_elog:
  assumes "k \<in> set js" "bad_attlen (attlen (att ! k))"
  shows "heap_cache_fill js att off = Inl ElogError"
  using assms
proof (induction js arbitrary: att off)
  case Nil
  then show ?case by simp
next
  case (Cons j js)
  show ?case
  proof (cases "j = k")
    case True
    then show ?thesis using Cons.prems(2) by (simp add: heap_att_align_bad)
  next
    case False
    with Cons.prems(1) have k: "k \<in> set js" by simp
    show ?thesis
    proof (cases "heap_att_align (att ! j) off")
      case (Inl e)
      then show ?thesis using heap_att_align_Inl [OF Inl] by simp
    next
      case (Inr off')
      have "bad_attlen (attlen (att[j := (att ! j)\<lparr>attcacheoff := off'\<rparr>] ! k))"
        using False Cons.prems(2) by simp
      with k have "heap_cache_fill js (att[j := (att ! j)\<lparr>attcacheoff := off'\<rparr>])
                     (off' + attlen (att ! j)) = Inl ElogError"
        by (rule Cons.IH)
      then show ?thesis using Inr by simp
    qed
  qed
qed

lemma index_cache_fill_elog:
  assumes "k \<in> set js" "bad_attlen (attlen (att ! k))"
  shows "index_cache_fill js att off = Inl ElogError"
  using assms
proof (induction js arbitrary: att off)
  case Nil
  then show ?case by simp
next
  case (Cons j js)
  show ?case
  proof (cases "j = k")
    case True
    then show ?thesis using Cons.prems(2) by (simp add: index_att_align_bad)
  next
    case False
    with Cons.prems(1) have k: "k \<in> set js" by simp
    show ?thesis
    proof (cases "index_att_align (att ! j) off")
      case (Inl e)
      then show ?thesis using index_att_align_Inl [OF Inl] by simp
    next
      case (Inr off')
      have "bad_attlen (attlen (att[j := (att ! j)\<lparr>attcacheoff := off'\<rparr>] ! k))"
        using False Cons.prems(2) by simp
      with k have "index_cache_fill js (att[j := (att ! j)\<lparr>attcacheoff := off'\<rparr>])
                     (off' + attlen (att ! j)) = Inl ElogError"
        by (rule Cons.IH)
      then show ?thesis using Inr by simp
    qed
  qed
qed

lemma heap_cache_fill_bad:
  assumes "k \<in> set js" "bad_attlen (attlen (att ! k))"
  shows "isl (heap_cache_fill js att off)"
  using heap_cache_fill_elog [OF assms] by simp

lemma index_cache_fill_bad:
  assumes "k \<in> set js" "bad_attlen (attlen (att ! k))"
  shows "isl (index_cache_fill js att off)"
  using index_cache_fill_elog [OF assms] by simp

lemma map_attlen_cache_update:
  "map attlen (xs[i := (xs ! i)\<lparr>attcacheoff := c\<rparr>]) = map attlen xs"
  by (cases "i < length xs") (simp_all add: map_update list_update_same_conv list_update_beyond)

lemma heap_walk_step_attlen:
  assumes "heap_walk_step tup i s = Inr s'"
  shows "map attlen (w_att s') = map attlen (w_att s)"
  using assms
  by (auto simp: heap_walk_step_def Let_def map_attlen_cache_update
      split: sum.splits if_splits)

lemma heap_walk_attlen:
  "heap_walk tup js s = Inr s' \<Longrightarrow> map attlen (w_att s') = map attlen (w_att s)"
proof (induction js arbitrary: s)
  case Nil
  then show ?case by simp
next
  case (Cons j js)
  from Cons.prems obtain s1 where s1: "heap_walk_step tup j s = Inr s1" "heap_walk tup js s1 = Inr s'"
    by (auto split: sum.splits)
  show ?case using Cons.IH [OF s1(2)] heap_walk_step_attlen [OF s1(1)] by simp
qed

lemma index_walk_step_attlen:
  assumes "index_walk_step tup i s = Inr s'"
  shows "map attlen (w_att s') = map attlen (w_att s)"
  using assms
  by (auto simp: index_walk_step_def Let_def map_attlen_cache_update
      split: sum.splits if_splits)

lemma index_walk_attlen:
  "index_walk tup js s = Inr s' \<Longrightarrow> map attlen (w_att s') = map attlen (w_att s)"
proof (induction js arbitrary: s)
  case Nil
  then show ?case by simp
next
  case (Cons j js)
  from Cons.prems obtain s1 where s1: "index_walk_step tup j s = Inr s1" "index_walk tup js s1 = Inr s'"
    by (auto split: sum.splits)
  show ?case using Cons.IH [OF s1(2)] index_walk_step_attlen [OF s1(1)] by simp
qed

lemma attlen_of_map:
  assumes "map attlen xs = map attlen ys" "k < length ys"
  shows "attlen (xs ! k) = attlen (ys ! k)"
proof -
  have "length xs = length ys" using assms(1) by (metis length_map)
  then show ?thesis using assms by (metis nth_map)
qed

lemma first_uncached_le:
  assumes "first_uncached att = Inr j" "1 \<le> k" "k < length att" "\<not> 0 < attcacheoff (att ! k)"
  shows "1 \<le> j \<and> j \<le> k"
proof -
  from assms(1) have f: "find (\<lambda>j. \<not> 0 < attcacheoff (att ! j)) [1..<length att] = Some j"
    by (auto simp: first_uncached_def split: option.splits)
  then obtain i where i: "i < length [1..<length att]" "j = [1..<length att] ! i"
    and before: "\<forall>m<i. \<not> \<not> 0 < attcacheoff (att ! ([1..<length att] ! m))"
    unfolding find_Some_iff by blast
  have j: "j = 1 + i" using i by simp
  have "\<not> k - 1 < i"
  proof
    assume lt: "k - 1 < i"
    then have "[1..<length att] ! (k - 1) = k" using i(1) assms(2) by simp
    with before lt assms(4) show False by auto
  qed
  then show ?thesis using j assms(2) by simp
qed


lemma nocachegetattr_bad_length:
  assumes "1 < attnum" "attnum \<le> int (length att)"
    and "\<not> 0 < attcacheoff (att ! nat (attnum - 1))"
    and "bad_attlen (attlen (att ! nat (attnum - 1)))"
  shows "isl (nocachegetattr tup attnum att)"
proof -
  define k where "k = nat (attnum - 1)"
  have k: "1 \<le> k" "k < length att" using assms(1,2) by (auto simp: k_def)
  have unc: "\<not> 0 < attcacheoff (att ! k)" and bad: "bad_attlen (attlen (att ! k))"
    using assms(3,4) by (simp_all add: k_def)
  let ?att0 = "att[0 := (att ! 0)\<lparr>attcacheoff := 0\<rparr>]"
  have att0k: "?att0 ! k = att ! k" using k by simp
  have fill: "isl (heap_cache_fill [j..<k + 1] ?att0 off)" if "first_uncached ?att0 = Inr j" for j off
  proof -
    have "1 \<le> j \<and> j \<le> k"
      using that k unc att0k by (intro first_uncached_le [of ?att0 j k]) simp_all
    then have "k \<in> set [j..<k + 1]" by simp
    then show ?thesis using bad att0k by (intro heap_cache_fill_bad [of k]) simp_all
  qed
  have walk: "heap_att_align (w_att s ! k) (w_off s) = Inl ElogError"
    if "heap_walk tup [0..<k] \<lparr>w_att = att, w_off = 0, w_usecache = True\<rparr> = Inr s" for s
  proof -
    have "map attlen (w_att s) = map attlen att" using heap_walk_attlen [OF that] by simp
    then have "attlen (w_att s ! k) = attlen (att ! k)" using k(2) by (rule attlen_of_map)
    then show ?thesis using bad by (simp add: heap_att_align_bad)
  qed
  have guard: "\<not> (attnum < 1 \<or> int (length att) < attnum)" using assms(1,2) by simp
  have k0: "k \<noteq> 0" using k by simp
  show ?thesis
  proof (cases "if HeapTupleNoNulls tup then Inr False else nulls_before (t_bits tup) [0..<k]")
    case (Inl e)
    then show ?thesis
      unfolding nocachegetattr_def Let_def k_def [symmetric] using guard by simp
  next
    case slow1: (Inr slow1)
    show ?thesis
    proof (cases "slow1 \<or> (\<not> HeapTupleAllFixed tup \<and> varlena_before att k)")
      case True
      show ?thesis
      proof (cases "heap_walk tup [0..<k] \<lparr>w_att = att, w_off = 0, w_usecache = True\<rparr>")
        case (Inl e)
        then show ?thesis
          unfolding nocachegetattr_def Let_def k_def [symmetric]
          using guard slow1 True unc k0 by simp
      next
        case (Inr s)
        then show ?thesis
          unfolding nocachegetattr_def Let_def k_def [symmetric]
          using guard slow1 True unc k0 walk [OF Inr] by simp
      qed
    next
      case False
      show ?thesis
      proof (cases "first_uncached ?att0")
        case (Inl e)
        then show ?thesis
          unfolding nocachegetattr_def Let_def k_def [symmetric]
          using guard slow1 False unc k0 by simp
      next
        case (Inr j)
        from fill [OF Inr] obtain e where
          "heap_cache_fill [j..<k + 1] ?att0
             (attcacheoff (?att0 ! (j - 1)) + attlen (?att0 ! (j - 1))) = Inl e"
          by (metis isl_def)
        then show ?thesis
          unfolding nocachegetattr_def Let_def k_def [symmetric]
          using guard slow1 False unc k0 Inr by simp
      qed
    qed
  qed
qed

lemma nocache_index_getattr_bad_length:
  assumes "1 < attnum" "attnum \<le> int (length att)"
    and "\<not> 0 < attcacheoff (att ! nat (attnum - 1))"
    and "bad_attlen (attlen (att ! nat (attnum - 1)))"
  shows "isl (nocache_index_getattr tup attnum att)"
proof -
  define k where "k = nat (attnum - 1)"
  have k: "1 \<le> k" "k < length att" using assms(1,2) by (auto simp: k_def)
  have unc: "\<not> 0 < attcacheoff (att ! k)" and bad: "bad_attlen (attlen (att ! k))"
    using assms(3,4) by (simp_all add: k_def)
  let ?att0 = "att[0 := (att ! 0)\<lparr>attcacheoff := 0\<rparr>]"
  have att0k: "?att0 ! k = att ! k" using k by simp
  have fill: "isl (index_cache_fill [j..<k + 1] ?att0 off)" if "first_uncached ?att0 = Inr j" for j off
  proof -
    have "1 \<le> j \<and> j \<le> k"
      using that k unc att0k by (intro first_uncached_le [of ?att0 j k]) simp_all
    then have "k \<in> set [j..<k + 1]" by simp
    then show ?thesis using bad att0k by (intro index_cache_fill_bad [of k]) simp_all
  qed
  have walk: "heap_att_align (w_att s ! k) (w_off s) = Inl ElogError"
    if "index_walk tup [0..<k] \<lparr>w_att = att, w_off = 0, w_usecache = True\<rparr> = Inr s" for s
  proof -
    have "map attlen (w_att s) = map attlen att" using index_walk_attlen [OF that] by simp
    then have "attlen (w_att s ! k) = attlen (att ! k)" using k(2) by (rule attlen_of_map)
    then show ?thesis using bad by (simp add: heap_att_align_bad)
  qed
  have guard: "\<not> (attnum < 1 \<or> int (length att) < attnum)" using assms(1,2) by simp
  show ?thesis
  proof (cases "if IndexTupleNoNulls tup then Inr False
               else index_nulls_before (i_bits tup) (k div 8) (int (k mod 8)) [0..<k div 8 + 1]")
    case (Inl e)
    then show ?thesis
      unfolding nocache_index_getattr_def Let_def k_def [symmetric] using guard by simp
  next
    case slow1: (Inr slow1)
    show ?thesis
    proof (cases "slow1 \<or> (\<not> IndexTupleAllFixed tup \<and> varlena_before att k)")
      case True
      show ?thesis
      proof (cases "index_walk tup [0..<k] \<lparr>w_att = att, w_off = 0, w_usecache = True\<rparr>")
        case (Inl e)
        then show ?thesis
          unfolding nocache_index_getattr_def Let_def k_def [symmetric]
          using guard slow1 True unc by simp
      next
        case (Inr s)
        then show ?thesis
          unfolding nocache_index_getattr_def Let_def k_def [symmetric]
          using guard slow1 True unc walk [OF Inr] by simp
      qed
    next
      case False
      show ?thesis
      proof (cases "first_uncached ?att0")
        case (Inl e)
        then show ?thesis
          unfolding nocache_index_getattr_def Let_def k_def [symmetric]
          using guard slow1 False unc by simp
      next
        case (Inr j)
        from fill [OF Inr] obtain e where
          "index_cache_fill [j..<k + 1] ?att0
             (attcacheoff (?att0 ! (j - 1)) + attlen (?att0 ! (j - 1))) = Inl e"
          by (metis isl_def)
        then show ?thesis
          unfolding nocache_index_getattr_def Let_def k_def [symmetric]
          using guard slow1 False unc Inr by simp
      qed
    qed
  qed
qed
lemma first_uncached_exists:
  assumes "1 \<le> k" "k < length att" "\<not> 0 < attcacheoff (att ! k)"
  shows "\<exists>j. first_uncached att = Inr j"
proof -
  have "k \<in> set [1..<length att]" using assms by simp
  then have "find (\<lambda>j. \<not> 0 < attcacheoff (att ! j)) [1..<length att] \<noteq> None"
    using assms(3) unfolding find_None_iff by blast
  then show ?thesis by (auto simp: first_uncached_def split: option.splits)
qed

lemma nocachegetattr_bad_length_elog:
  assumes "1 < attnum" "attnum \<le> int (length att)"
    and "\<not> 0 < attcacheoff (att ! nat (attnum - 1))"
    and "bad_attlen (attlen (att ! nat (attnum - 1)))"
    and "HeapTupleNoNulls tup" "\<not> varlena_before att (nat (attnum - 1))"
  shows "nocachegetattr tup attnum att = Inl ElogError"
proof -
  define k where "k = nat (attnum - 1)"
  have k: "1 \<le> k" "k < length att" using assms(1,2) by (auto simp: k_def)
  have unc: "\<not> 0 < attcacheoff (att ! k)" and bad: "bad_attlen (attlen (att ! k))"
    and nv: "\<not> varlena_before att k"
    using assms(3,4,6) by (simp_all add: k_def)
  let ?att0 = "att[0 := (att ! 0)\<lparr>attcacheoff := 0\<rparr>]"
  have att0k: "?att0 ! k = att ! k" using k by simp
  obtain j where j: "first_uncached ?att0 = Inr j"
    using first_uncached_exists [of k ?att0] k unc att0k by auto
  have "1 \<le> j \<and> j \<le> k"
    using j k unc att0k by (intro first_uncached_le [of ?att0 j k]) simp_all
  then have "k \<in> set [j..<k + 1]" by simp
  then have fill: "heap_cache_fill [j..<k + 1] ?att0
             (attcacheoff (?att0 ! (j - 1)) + attlen (?att0 ! (j - 1))) = Inl ElogError"
    using bad att0k by (intro heap_cache_fill_elog [of k]) simp_all
  have guard: "\<not> (attnum < 1 \<or> int (length att) < attnum)" using assms(1,2) by simp
  have k0: "k \<noteq> 0" using k by simp
  show ?thesis
    unfolding nocachegetattr_def Let_def k_def [symmetric]
    using guard assms(5) unc k0 nv j fill by simp
qed

lemma nocache_index_getattr_bad_length_elog:
  assumes "1 < attnum" "attnum \<le> int (length att)"
    and "\<not> 0 < attcacheoff (att ! nat (attnum - 1))"
    and "bad_attlen (attlen (att ! nat (attnum - 1)))"
    and "IndexTupleNoNulls tup" "\<not> varlena_before att (nat (attnum - 1))"
  shows "nocache_index_getattr tup attnum att = Inl ElogError"
proof -
  define k where "k = nat (attnum - 1)"
  have k: "1 \<le> k" "k < length att" using assms(1,2) by (auto simp: k_def)
  have unc: "\<not> 0 < attcacheoff (att ! k)" and bad: "bad_attlen (attlen (att ! k))"
    and nv: "\<not> varlena_before att k"
    using assms(3,4,6) by (simp_all add: k_def)
  let ?att0 = "att[0 := (att ! 0)\<lparr>attcacheoff := 0\<rparr>]"
  have att0k: "?att0 ! k = att ! k" using k by simp
  obtain j where j: "first_uncached ?att0 = Inr j"
    using first_uncached_exists [of k ?att0] k unc att0k by auto
  have "1 \<le> j \<and> j \<le> k"
    using j k unc att0k by (intro first_uncached_le [of ?att0 j k]) simp_all
  then have "k \<in> set [j..<k + 1]" by simp
  then have fill: "index_cache_fill [j..<k + 1] ?att0
             (attcacheoff (?att0 ! (j - 1)) + attlen (?att0 ! (j - 1))) = Inl ElogError"
    using bad att0k by (intro index_cache_fill_elog [of k]) simp_all
  have guard: "\<not> (attnum < 1 \<or> int (length att) < attnum)" using assms(1,2) by simp
  show ?thesis
    unfolding nocache_index_getattr_def Let_def k_def [symmetric]
    using guard assms(5) unc nv j fill by simp
qed

lemma nocachegetattr_bad_length_after_null:
  assumes "1 \<le> attnum" "attnum \<le> int (length att)"
    and "bad_attlen (attlen (att ! nat (attnum - 1)))"
    and "heap_null_scan tup (nat (attnum - 1)) \<noteq> Inr False"
  shows "isl (nocachegetattr tup attnum att)"
proof -
  define k where "k = nat (attnum - 1)"
  have k: "k < length att" using assms(1,2) by (auto simp: k_def)
  have bad: "bad_attlen (attlen (att ! k))" using assms(3) by (simp add: k_def)
  have guard: "\<not> (attnum < 1 \<or> int (length att) < attnum)" using assms(1,2) by simp
  have walk: "heap_att_align (w_att s ! k) (w_off s) = Inl ElogError"
    if "heap_walk tup [0..<k] \<lparr>w_att = att, w_off = 0, w_usecache = True\<rparr> = Inr s" for s
  proof -
    have "map attlen (w_att s) = map attlen att" using heap_walk_attlen [OF that] by simp
    then have "attlen (w_att s ! k) = attlen (att ! k)" using k by (rule attlen_of_map)
    then show ?thesis using bad by (simp add: heap_att_align_bad)
  qed
  show ?thesis
  proof (cases "if HeapTupleNoNulls tup then Inr False else nulls_before (t_bits tup) [0..<k]")
    case (Inl e)
    then show ?thesis
      unfolding nocachegetattr_def Let_def k_def [symmetric] using guard by simp
  next
    case slow1: (Inr slow1)
    have "heap_null_scan tup k \<noteq> Inr False" using assms(4) by (simp add: k_def)
    with slow1 have t: "slow1" by (auto simp: heap_null_scan_def)
    show ?thesis
    proof (cases "heap_walk tup [0..<k] \<lparr>w_att = att, w_off = 0, w_usecache = True\<rparr>")
      case (Inl e)
      then show ?thesis
        unfolding nocachegetattr_def Let_def k_def [symmetric]
        using guard slow1 t by simp
    next
      case (Inr s)
      then show ?thesis
        unfolding nocachegetattr_def Let_def k_def [symmetric]
        using guard slow1 t walk [OF Inr] by simp
    qed
  qed
qed

lemma nocache_index_getattr_bad_length_after_null:
  assumes "1 \<le> attnum" "attnum \<le> int (length att)"
    and "bad_attlen (attlen (att ! nat (attnum - 1)))"
    and "index_null_scan tup (nat (attnum - 1)) \<noteq> Inr False"
  shows "isl (nocache_index_getattr tup attnum att)"
proof -
  define k where "k = nat (attnum - 1)"
  have k: "k < length att" using assms(1,2) by (auto simp: k_def)
  have bad: "bad_attlen (attlen (att ! k))" using assms(3) by (simp add: k_def)
  have guard: "\<not> (attnum < 1 \<or> int (length att) < attnum)" using assms(1,2) by simp
  have walk: "heap_att_align (w_att s ! k) (w_off s) = Inl ElogError"
    if "index_walk tup [0..<k] \<lparr>w_att = att, w_off = 0, w_usecache = True\<rparr> = Inr s" for s
  proof -
    have "map attlen (w_att s) = map attlen att" using index_walk_attlen [OF that] by simp
    then have "attlen (w_att s ! k) = attlen (att ! k)" using k by (rule attlen_of_map)
    then show ?thesis using bad by (simp add: heap_att_align_bad)
  qed
  show ?thesis
  proof (cases "if IndexTupleNoNulls tup then Inr False
               else index_nulls_before (i_bits tup) (k div 8) (int (k mod 8)) [0..<k div 8 + 1]")
    case (Inl e)
    then show ?thesis
      unfolding nocache_index_getattr_def Let_def k_def [symmetric] using guard by simp
  next
    case slow1: (Inr slow1)
    have "index_null_scan tup k \<noteq> Inr False" using assms(4) by (simp add: k_def)
    with slow1 have t: "slow1" by (auto simp: index_null_scan_def)
    show ?thesis
    proof (cases "index_walk tup [0..<k] \<lparr>w_att = att, w_off = 0, w_usecache = True\<rparr>")
      case (Inl e)
      then show ?thesis
        unfolding nocache_index_getattr_def Let_def k_def [symmetric]
        using guard slow1 t by simp
    next
      case (Inr s)
      then show ?thesis
        unfolding nocache_index_getattr_def Let_def k_def [symmetric]
        using guard slow1 t walk [OF Inr] by simp
    qed
  qed
qed

lemma nocachegetattr_shortcut:
  assumes "1 \<le> attnum" "attnum \<le> int (length att)"
    and "heap_null_scan tup (nat (attnum - 1)) = Inr False"
  shows "0 < attcacheoff (att ! nat (attnum - 1)) \<Longrightarrow>
           nocachegetattr tup attnum att
             = fetch_with att (nat (attnum - 1)) (t_data tup) (attcacheoff (att ! nat (attnum - 1)))"
    and "\<not> 0 < attcacheoff (att ! nat (attnum - 1)) \<Longrightarrow> attnum = 1 \<Longrightarrow>
           nocachegetattr tup attnum att = fetch_with att 0 (t_data tup) 0"
proof -
  have ne: "att \<noteq> []" using assms(1,2) by auto
  show "0 < attcacheoff (att ! nat (attnum - 1)) \<Longrightarrow>
           nocachegetattr tup attnum att
             = fetch_with att (nat (attnum - 1)) (t_data tup) (attcacheoff (att ! nat (attnum - 1)))"
    using assms unfolding nocachegetattr_def Let_def heap_null_scan_def by simp
  show "\<not> 0 < attcacheoff (att ! nat (attnum - 1)) \<Longrightarrow> attnum = 1 \<Longrightarrow>
           nocachegetattr tup attnum att = fetch_with att 0 (t_data tup) 0"
    using assms ne unfolding nocachegetattr_def Let_def heap_null_scan_def by simp
qed

lemma nocache_index_getattr_shortcut:
  assumes "1 \<le> attnum" "attnum \<le> int (length att)"
    and "index_null_scan tup (nat (attnum - 1)) = Inr False"
    and "0 < attcacheoff (att ! nat (attnum - 1))"
  shows "nocache_index_getattr tup attnum att
           = fetch_with att (nat (attnum - 1)) (i_data tup) (attcacheoff (att ! nat (attnum - 1)))"
  using assms unfolding nocache_index_getattr_def Let_def index_null_scan_def
  by simp

lemma fetch_with_no_elog: "fetch_with att n tp off \<noteq> Inl ElogError"
  by (auto simp: fetch_with_def fetchatt_def Let_def split: sum.splits if_splits)


lemma heap_null_scan_first: "heap_null_scan tup 0 = Inr False"
  by (simp add: heap_null_scan_def)

lemma first_uncached_ge:
  assumes "first_uncached att = Inr j"
  shows "1 \<le> j"
proof -
  from assms have "find (\<lambda>j. \<not> 0 < attcacheoff (att ! j)) [1..<length att] = Some j"
    by (auto simp: first_uncached_def split: option.splits)
  then have "j \<in> set [1..<length att]" unfolding find_Some_iff by (metis nth_mem)
  then show ?thesis by simp
qed

lemma first_uncached_error: "first_uncached att = Inl e \<Longrightarrow> e = BadAccess"
  by (auto simp: first_uncached_def split: option.splits)

lemma nocache_index_getattr_first:
  assumes "att \<noteq> []" "index_null_scan tup 0 = Inr False" "\<not> 0 < attcacheoff (att ! 0)"
  shows "nocache_index_getattr tup 1 att \<noteq> Inl ElogError"
proof -
  define k where "k = nat (1 - 1)"
  have k0: "k = 0" by (simp add: k_def)
  let ?att0 = "att[0 := (att ! 0)\<lparr>attcacheoff := 0\<rparr>]"
  have guard: "\<not> ((1::int) < 1 \<or> int (length att) < 1)" using assms(1) by (cases att) auto
  have "index_null_scan tup k = Inr False" using assms(2) k0 by simp
  then have scan: "(if IndexTupleNoNulls tup then Inr False
               else index_nulls_before (i_bits tup) (k div 8) (int (k mod 8)) [0..<k div 8 + 1])
              = Inr False"
    unfolding index_null_scan_def .
  have unc: "\<not> 0 < attcacheoff (att ! k)" using assms(3) k0 by simp
  have nv: "\<not> varlena_before att k" using k0 by (simp add: varlena_before_def)
  show ?thesis
  proof (cases "first_uncached ?att0")
    case (Inl e)
    then have "e = BadAccess" by (rule first_uncached_error)
    then show ?thesis
      unfolding nocache_index_getattr_def Let_def k_def [symmetric]
      using guard scan unc nv Inl by simp
  next
    case (Inr j)
    then have "1 \<le> j" by (rule first_uncached_ge)
    then have e: "[j..<k + 1] = []" using k0 by simp
    show ?thesis
      unfolding nocache_index_getattr_def Let_def k_def [symmetric]
      using guard scan unc nv Inr e by (simp add: fetch_with_no_elog)
  qed
qed

text \<open>
  Claim C8, as the code has it. An attribute number above the tuple's attribute count is
  answered as null: \<open>heap_attisnull\<close> returns 1 and raises nothing. On a tuple that has
  nulls, \<open>heap_attisnull\<close> raises the fatal error for attribute number 0 and for negative
  numbers below the six system attributes. The accessors raise the fatal error for a
  declared length of 0 or 3 in the alignment switches of their walks. With
  such a length for the requested attribute, neither \<open>nocachegetattr\<close> nor
  \<open>nocache_index_getattr\<close> returns a value when the attribute is not the first and has no
  cached offset (on a tuple without nulls and without an earlier attribute of length below
  1 the result is the fatal error), nor when the accessor's scan of the null bitmap does
  not end with "no null before the attribute", whether the offset is cached or not; in an
  index tuple this scan covers the first attribute too. When the scan ends with "no null
  before the attribute", an attribute with a cached offset is fetched at that offset
  whatever its length, by both accessors; the first attribute without a cached offset is
  fetched at offset 0 by \<open>nocachegetattr\<close> whatever its length and the tuple's nulls, and
  \<open>nocache_index_getattr\<close> does not raise the fatal error for it. The fetch itself never
  raises the fatal error.
\<close>

theorem attribute_number_and_length_checks:
  "(t_natts tup < attnum \<longrightarrow> heap_attisnull tup attnum = Inr 1)
   \<and> (\<not> HeapTupleNoNulls tup \<and> attnum \<le> t_natts tup \<and> (attnum = 0 \<or> attnum < -6) \<longrightarrow>
        heap_attisnull tup attnum = Inl ElogError)
   \<and> (1 < k \<and> k \<le> int (length att) \<and> \<not> 0 < attcacheoff (att ! nat (k - 1))
        \<and> (attlen (att ! nat (k - 1)) = 0 \<or> attlen (att ! nat (k - 1)) = 3) \<longrightarrow>
          isl (nocachegetattr tup k att) \<and> isl (nocache_index_getattr itup k att)
        \<and> (HeapTupleNoNulls tup \<and> \<not> varlena_before att (nat (k - 1)) \<longrightarrow>
              nocachegetattr tup k att = Inl ElogError)
        \<and> (IndexTupleNoNulls itup \<and> \<not> varlena_before att (nat (k - 1)) \<longrightarrow>
              nocache_index_getattr itup k att = Inl ElogError))
   \<and> (1 \<le> k \<and> k \<le> int (length att)
        \<and> (attlen (att ! nat (k - 1)) = 0 \<or> attlen (att ! nat (k - 1)) = 3) \<longrightarrow>
          (heap_null_scan tup (nat (k - 1)) \<noteq> Inr False \<longrightarrow> isl (nocachegetattr tup k att))
        \<and> (index_null_scan itup (nat (k - 1)) \<noteq> Inr False \<longrightarrow>
              isl (nocache_index_getattr itup k att)))
   \<and> (1 \<le> k \<and> k \<le> int (length att) \<and> 0 < attcacheoff (att ! nat (k - 1)) \<longrightarrow>
          (heap_null_scan tup (nat (k - 1)) = Inr False \<longrightarrow>
              nocachegetattr tup k att
                = fetch_with att (nat (k - 1)) (t_data tup) (attcacheoff (att ! nat (k - 1))))
        \<and> (index_null_scan itup (nat (k - 1)) = Inr False \<longrightarrow>
              nocache_index_getattr itup k att
                = fetch_with att (nat (k - 1)) (i_data itup) (attcacheoff (att ! nat (k - 1)))))
   \<and> (att \<noteq> [] \<and> \<not> 0 < attcacheoff (att ! 0) \<longrightarrow>
          nocachegetattr tup 1 att = fetch_with att 0 (t_data tup) 0
        \<and> (index_null_scan itup 0 = Inr False \<longrightarrow>
              nocache_index_getattr itup 1 att \<noteq> Inl ElogError))
   \<and> fetch_with att n tp off \<noteq> Inl ElogError"
proof -
  have a: "t_natts tup < attnum \<longrightarrow> heap_attisnull tup attnum = Inr 1"
    by (simp add: heap_attisnull_def)
  have b: "\<not> HeapTupleNoNulls tup \<and> attnum \<le> t_natts tup \<and> (attnum = 0 \<or> attnum < -6) \<longrightarrow>
        heap_attisnull tup attnum = Inl ElogError"
    by (auto simp: heap_attisnull_def)
  have c: "1 < k \<and> k \<le> int (length att) \<and> \<not> 0 < attcacheoff (att ! nat (k - 1))
        \<and> (attlen (att ! nat (k - 1)) = 0 \<or> attlen (att ! nat (k - 1)) = 3) \<longrightarrow>
          isl (nocachegetattr tup k att) \<and> isl (nocache_index_getattr itup k att)
        \<and> (HeapTupleNoNulls tup \<and> \<not> varlena_before att (nat (k - 1)) \<longrightarrow>
              nocachegetattr tup k att = Inl ElogError)
        \<and> (IndexTupleNoNulls itup \<and> \<not> varlena_before att (nat (k - 1)) \<longrightarrow>
              nocache_index_getattr itup k att = Inl ElogError)"
  proof
    assume h0: "1 < k \<and> k \<le> int (length att) \<and> \<not> 0 < attcacheoff (att ! nat (k - 1))
        \<and> (attlen (att ! nat (k - 1)) = 0 \<or> attlen (att ! nat (k - 1)) = 3)"
    then have h: "1 < k" "k \<le> int (length att)" "\<not> 0 < attcacheoff (att ! nat (k - 1))"
      and bad: "bad_attlen (attlen (att ! nat (k - 1)))"
      by (simp_all add: bad_attlen_def)
    show "isl (nocachegetattr tup k att) \<and> isl (nocache_index_getattr itup k att)
        \<and> (HeapTupleNoNulls tup \<and> \<not> varlena_before att (nat (k - 1)) \<longrightarrow>
              nocachegetattr tup k att = Inl ElogError)
        \<and> (IndexTupleNoNulls itup \<and> \<not> varlena_before att (nat (k - 1)) \<longrightarrow>
              nocache_index_getattr itup k att = Inl ElogError)"
      using nocachegetattr_bad_length [OF h bad]
        nocache_index_getattr_bad_length [OF h bad]
        nocachegetattr_bad_length_elog [OF h bad]
        nocache_index_getattr_bad_length_elog [OF h bad]
      by blast
  qed
  have d: "1 \<le> k \<and> k \<le> int (length att)
        \<and> (attlen (att ! nat (k - 1)) = 0 \<or> attlen (att ! nat (k - 1)) = 3) \<longrightarrow>
          (heap_null_scan tup (nat (k - 1)) \<noteq> Inr False \<longrightarrow> isl (nocachegetattr tup k att))
        \<and> (index_null_scan itup (nat (k - 1)) \<noteq> Inr False \<longrightarrow>
              isl (nocache_index_getattr itup k att))"
  proof
    assume h0: "1 \<le> k \<and> k \<le> int (length att)
        \<and> (attlen (att ! nat (k - 1)) = 0 \<or> attlen (att ! nat (k - 1)) = 3)"
    then have h: "1 \<le> k" "k \<le> int (length att)"
      and bad: "bad_attlen (attlen (att ! nat (k - 1)))"
      by (simp_all add: bad_attlen_def)
    show "(heap_null_scan tup (nat (k - 1)) \<noteq> Inr False \<longrightarrow> isl (nocachegetattr tup k att))
        \<and> (index_null_scan itup (nat (k - 1)) \<noteq> Inr False \<longrightarrow>
              isl (nocache_index_getattr itup k att))"
      using nocachegetattr_bad_length_after_null [OF h bad]
        nocache_index_getattr_bad_length_after_null [OF h bad]
      by blast
  qed
  have e: "1 \<le> k \<and> k \<le> int (length att) \<and> 0 < attcacheoff (att ! nat (k - 1)) \<longrightarrow>
          (heap_null_scan tup (nat (k - 1)) = Inr False \<longrightarrow>
              nocachegetattr tup k att
                = fetch_with att (nat (k - 1)) (t_data tup) (attcacheoff (att ! nat (k - 1))))
        \<and> (index_null_scan itup (nat (k - 1)) = Inr False \<longrightarrow>
              nocache_index_getattr itup k att
                = fetch_with att (nat (k - 1)) (i_data itup) (attcacheoff (att ! nat (k - 1))))"
    using nocachegetattr_shortcut(1) [of k att tup] nocache_index_getattr_shortcut [of k att itup]
    by blast
  have f: "att \<noteq> [] \<and> \<not> 0 < attcacheoff (att ! 0) \<longrightarrow>
          nocachegetattr tup 1 att = fetch_with att 0 (t_data tup) 0
        \<and> (index_null_scan itup 0 = Inr False \<longrightarrow>
              nocache_index_getattr itup 1 att \<noteq> Inl ElogError)"
  proof
    assume h0: "att \<noteq> [] \<and> \<not> 0 < attcacheoff (att ! 0)"
    then have l: "(1::int) \<le> 1" "1 \<le> int (length att)" by (cases att; simp)+
    have s: "heap_null_scan tup (nat (1 - 1)) = Inr False" by (simp add: heap_null_scan_first)
    have "nocachegetattr tup 1 att = fetch_with att 0 (t_data tup) 0"
      using nocachegetattr_shortcut(2) [OF l s] h0 by simp
    then show "nocachegetattr tup 1 att = fetch_with att 0 (t_data tup) 0
        \<and> (index_null_scan itup 0 = Inr False \<longrightarrow>
              nocache_index_getattr itup 1 att \<noteq> Inl ElogError)"
      using nocache_index_getattr_first [of att itup] h0 by blast
  qed
  have g: "fetch_with att n tp off \<noteq> Inl ElogError" by (rule fetch_with_no_elog)
  show ?thesis by (intro conjI a b c d e f g)
qed

theorem attribute_number_and_length_checks_witness:
  "(t_natts htup_mixed < 5 \<and> heap_attisnull htup_mixed 5 = Inr 1)
   \<and> (\<not> HeapTupleNoNulls htup_mixed \<and> 0 \<le> t_natts htup_mixed
        \<and> heap_attisnull htup_mixed 0 = Inl ElogError)
   \<and> ((1::int) < 2 \<and> 2 \<le> int (length desc_len3) \<and> \<not> 0 < attcacheoff (desc_len3 ! nat (2 - 1))
        \<and> attlen (desc_len3 ! nat (2 - 1)) = 3
        \<and> HeapTupleNoNulls htup_pair \<and> \<not> varlena_before desc_len3 (nat (2 - 1))
        \<and> nocachegetattr htup_pair 2 desc_len3 = Inl ElogError
        \<and> IndexTupleNoNulls itup_seq
        \<and> nocache_index_getattr itup_seq 2 desc_len3 = Inl ElogError)
   \<and> ((1::int) \<le> 4 \<and> 4 \<le> int (length desc_mixed_len3)
        \<and> attlen (desc_mixed_len3 ! nat (4 - 1)) = 3
        \<and> 0 < attcacheoff (desc_mixed_len3 ! nat (4 - 1))
        \<and> heap_null_scan htup_mixed (nat (4 - 1)) \<noteq> Inr False
        \<and> isl (nocachegetattr htup_mixed 4 desc_mixed_len3))
   \<and> ((1::int) \<le> 1 \<and> 1 \<le> int (length desc_first_len3)
        \<and> attlen (desc_first_len3 ! nat (1 - 1)) = 3
        \<and> index_null_scan itup_int4x5 (nat (1 - 1)) \<noteq> Inr False
        \<and> isl (nocache_index_getattr itup_int4x5 1 desc_first_len3))
   \<and> ((1::int) \<le> 2 \<and> 2 \<le> int (length desc_len3_cached)
        \<and> 0 < attcacheoff (desc_len3_cached ! nat (2 - 1))
        \<and> heap_null_scan htup_pair (nat (2 - 1)) = Inr False
        \<and> nocachegetattr htup_pair 2 desc_len3_cached = Inr (ByVal 6, desc_len3_cached))
   \<and> ((1::int) \<le> 2 \<and> 2 \<le> int (length desc_seq_cached)
        \<and> 0 < attcacheoff (desc_seq_cached ! nat (2 - 1))
        \<and> index_null_scan itup_seq (nat (2 - 1)) = Inr False
        \<and> nocache_index_getattr itup_seq 2 desc_seq_cached = Inr (ByVal 8, desc_seq_cached))
   \<and> (desc_first_len3 \<noteq> [] \<and> \<not> 0 < attcacheoff (desc_first_len3 ! 0)
        \<and> nocachegetattr htup_int4x5 1 desc_first_len3 = Inr (ByVal 10, desc_first_len3)
        \<and> index_null_scan itup_seq 0 = Inr False
        \<and> nocache_index_getattr itup_seq 1 desc_first_len3 \<noteq> Inl ElogError)"
proof -
  have h1: "t_natts htup_mixed < 5" "\<not> HeapTupleNoNulls htup_mixed" "0 \<le> t_natts htup_mixed"
    by (simp_all add: htup_mixed_def HeapTupleNoNulls_def HEAP_HASNULL_def)
  have c1: "heap_attisnull htup_mixed 5 = Inr 1"
    using attribute_number_and_length_checks [where tup = htup_mixed and attnum = 5] h1 by simp
  have c2: "heap_attisnull htup_mixed 0 = Inl ElogError"
    using attribute_number_and_length_checks [where tup = htup_mixed and attnum = 0] h1 by simp
  have h3: "(1::int) < 2" "2 \<le> int (length desc_len3)"
    "\<not> 0 < attcacheoff (desc_len3 ! nat (2 - 1))" "attlen (desc_len3 ! nat (2 - 1)) = 3"
    "HeapTupleNoNulls htup_pair" "\<not> varlena_before desc_len3 (nat (2 - 1))"
    "IndexTupleNoNulls itup_seq"
    by (simp_all add: desc_len3_def att_int4_def htup_pair_def HeapTupleNoNulls_def
        HEAP_HASNULL_def varlena_before_def itup_seq_def IndexTupleNoNulls_def
        INDEX_NULL_MASK_def)
  have c3: "nocachegetattr htup_pair 2 desc_len3 = Inl ElogError"
    "nocache_index_getattr itup_seq 2 desc_len3 = Inl ElogError"
    using attribute_number_and_length_checks
            [where tup = htup_pair and itup = itup_seq and k = 2 and att = desc_len3] h3
    by simp_all
  have h4: "(1::int) \<le> 4" "4 \<le> int (length desc_mixed_len3)"
    "attlen (desc_mixed_len3 ! nat (4 - 1)) = 3"
    "0 < attcacheoff (desc_mixed_len3 ! nat (4 - 1))"
    "heap_null_scan htup_mixed (nat (4 - 1)) \<noteq> Inr False"
    by (simp_all add: check_defs example_defs htup_mixed_def HeapTupleNoNulls_def
        HEAP_HASNULL_def att_isnull_def eval_simps)
  have c4: "isl (nocachegetattr htup_mixed 4 desc_mixed_len3)"
    using attribute_number_and_length_checks
            [where tup = htup_mixed and k = 4 and att = desc_mixed_len3] h4
    by simp
  have h5: "(1::int) \<le> 1" "1 \<le> int (length desc_first_len3)"
    "attlen (desc_first_len3 ! nat (1 - 1)) = 3"
    "index_null_scan itup_int4x5 (nat (1 - 1)) \<noteq> Inr False"
    by (simp_all add: check_defs example_defs itup_int4x5_def IndexTupleNoNulls_def
        INDEX_NULL_MASK_def read_bitmap_byte_def eval_simps)
  have c5: "isl (nocache_index_getattr itup_int4x5 1 desc_first_len3)"
    using attribute_number_and_length_checks
            [where itup = itup_int4x5 and k = 1 and att = desc_first_len3] h5
    by simp
  have h6: "(1::int) \<le> 2" "2 \<le> int (length desc_len3_cached)"
    "0 < attcacheoff (desc_len3_cached ! nat (2 - 1))"
    "heap_null_scan htup_pair (nat (2 - 1)) = Inr False"
    by (simp_all add: check_defs example_defs htup_pair_def HeapTupleNoNulls_def
        HEAP_HASNULL_def)
  have "nocachegetattr htup_pair 2 desc_len3_cached
          = fetch_with desc_len3_cached (nat (2 - 1)) (t_data htup_pair)
              (attcacheoff (desc_len3_cached ! nat (2 - 1)))"
    using attribute_number_and_length_checks
            [where tup = htup_pair and k = 2 and att = desc_len3_cached] h6
    by simp
  then have c6: "nocachegetattr htup_pair 2 desc_len3_cached = Inr (ByVal 6, desc_len3_cached)"
    by (simp add: check_defs example_defs htup_pair_def fetch_with_def fetchatt_def
        bytes_word_def bytes_nat_def eval_simps)
  have h7: "(1::int) \<le> 2" "2 \<le> int (length desc_seq_cached)"
    "0 < attcacheoff (desc_seq_cached ! nat (2 - 1))"
    "index_null_scan itup_seq (nat (2 - 1)) = Inr False"
    by (simp_all add: check_defs example_defs desc_seq_cached_def itup_seq_def
        IndexTupleNoNulls_def INDEX_NULL_MASK_def)
  have "nocache_index_getattr itup_seq 2 desc_seq_cached
          = fetch_with desc_seq_cached (nat (2 - 1)) (i_data itup_seq)
              (attcacheoff (desc_seq_cached ! nat (2 - 1)))"
    using attribute_number_and_length_checks
            [where itup = itup_seq and k = 2 and att = desc_seq_cached] h7
    by simp
  then have c7: "nocache_index_getattr itup_seq 2 desc_seq_cached = Inr (ByVal 8, desc_seq_cached)"
    by (simp add: example_defs desc_seq_cached_def itup_seq_def fetch_with_def fetchatt_def
        bytes_word_def bytes_nat_def eval_simps)
  have h8: "desc_first_len3 \<noteq> []" "\<not> 0 < attcacheoff (desc_first_len3 ! 0)"
    "index_null_scan itup_seq 0 = Inr False"
    by (simp_all add: check_defs example_defs itup_seq_def IndexTupleNoNulls_def
        INDEX_NULL_MASK_def)
  have "nocachegetattr htup_int4x5 1 desc_first_len3
          = fetch_with desc_first_len3 0 (t_data htup_int4x5) 0"
    and c9: "nocache_index_getattr itup_seq 1 desc_first_len3 \<noteq> Inl ElogError"
    using attribute_number_and_length_checks
            [where tup = htup_int4x5 and itup = itup_seq and att = desc_first_len3] h8
    by simp_all
  then have c8: "nocachegetattr htup_int4x5 1 desc_first_len3 = Inr (ByVal 10, desc_first_len3)"
    by (simp add: check_defs example_defs htup_int4x5_def fetch_with_def fetchatt_def
        bytes_word_def bytes_nat_def eval_simps)
  show ?thesis
    by (intro conjI h1 c1 c2 h3 c3 h4 c4 h5 c5 h6 c6 h7 c7 h8 c8 c9)
qed

text \<open>
  The claim as stated fails: attribute number 3 of a two-attribute tuple is reported null
  without an error, and the first attribute of a schema that declares length 3 is fetched
  without an error.
\<close>

theorem missing_entry_is_null_counterexample:
  "t_natts htup_pair = 2 \<and> heap_attisnull htup_pair 3 = Inr 1
   \<and> map_sum id fst (nocachegetattr htup_pair 1 [att_int4\<lparr>attlen := 3\<rparr>, att_text])
        = Inr (ByVal 7)"
  by (simp add: all_defs)

subsection \<open>Defects of the index tuple accessor\<close>

text \<open>
  Claim C1 (round trip, both families). The index family breaks it. The scan for nulls
  before the requested attribute in \<open>nocache_index_getattr\<close> builds its mask as
  \<^verbatim>\<open>(finalbit << 1) - 1\<close>, which for the fourth attribute is binary 101 and misses the
  bit of the second attribute. Five \<^verbatim>\<open>int4\<close> attributes with the second one null:
  reading attribute 4 of the index tuple returns 50, the value of attribute 5, instead of
  the supplied 40; the row tuple built from the same inputs returns 40.
\<close>

theorem index_roundtrip_breaks_after_null:
  "index_formtuple desc_int4x5 val_int4x5 '' n   '' = Inr itup_int4x5
   \<and> map_sum id fst (index_getattr itup_int4x5 4 desc_int4x5) = Inr (ByVal 50, False)
   \<and> map_sum id fst (nocache_index_getattr itup_int4x5 4 desc_int4x5) = Inr (ByVal 50)
   \<and> val_int4x5 ! 3 = ByVal 40
   \<and> heap_formtuple desc_int4x5 val_int4x5 '' n   '' = Inr htup_int4x5
   \<and> map_sum id fst (heap_getattr htup_int4x5 4 desc_int4x5) = Inr (ByVal 40, False)"
  by (simp add: all_defs)

text \<open>
  Claim C5 (both accessors decode alike). Six \<^verbatim>\<open>int2\<close> attributes with the fourth one
  null: for the fifth attribute the mask of \<open>nocache_index_getattr\<close> is binary 111 and
  misses the bit of the fourth attribute; the row tuple decodes attribute 5 as 5, the index
  tuple built from the same inputs decodes it as 6.
\<close>

theorem heap_and_index_decode_differ:
  "heap_formtuple desc_int2x6 val_int2x6 ''   n  '' = Inr htup_int2x6
   \<and> index_formtuple desc_int2x6 val_int2x6 ''   n  '' = Inr itup_int2x6
   \<and> map_sum id fst (nocachegetattr htup_int2x6 5 desc_int2x6) = Inr (ByVal 5)
   \<and> map_sum id fst (nocache_index_getattr itup_int2x6 5 desc_int2x6) = Inr (ByVal 6)
   \<and> map_sum id fst (heap_getattr htup_int2x6 5 desc_int2x6) = Inr (ByVal 5, False)
   \<and> map_sum id fst (index_getattr itup_int2x6 5 desc_int2x6) = Inr (ByVal 6, False)"
  by (simp add: all_defs)

text \<open>
  Claim C7 (a null attribute contributes nothing and is skipped). The builders skip it,
  the index accessor does not always. Schema \<^verbatim>\<open>[int4, float8, int4, text, int4]\<close> with
  the second attribute null: \<open>ComputeDataSize\<close> gives 20 bytes and both builders lay the
  text out at offset 8. For the fourth attribute the mask \<^verbatim>\<open>(finalbit << 1) - 1\<close> of
  \<open>nocache_index_getattr\<close> is binary 101 and misses the bit of the second attribute, so
  the offsets are computed by the loop for tuples without nulls: the null \<^verbatim>\<open>float8\<close> is
  given the aligned offset 8 and its 8 bytes, the third attribute offset 16, and the text
  is fetched at offset 20, in the padding, instead of offset 8. \<open>nocachegetattr\<close> on the row
  tuple of the same inputs passes the null attribute without moving the offset and returns
  the text at offset 8.
\<close>

theorem index_decoding_counts_null_attribute:
  "index_formtuple desc_nullprefix val_nullprefix '' n   '' = Inr itup_nullprefix
   \<and> map_sum id (\<lambda>(d, att). (d, map attcacheoff att))
         (nocache_index_getattr itup_nullprefix 4 desc_nullprefix)
        = Inr (ByRef [0, 0, 0, 0], [0, 8, 16, 20, 0])
   \<and> map_sum id fst (index_getattr itup_nullprefix 4 desc_nullprefix)
        = Inr (ByRef [0, 0, 0, 0], False)
   \<and> heap_formtuple desc_nullprefix val_nullprefix '' n   '' = Inr htup_nullprefix
   \<and> map_sum id (\<lambda>(d, att). (d, map attcacheoff att))
         (nocachegetattr htup_nullprefix 4 desc_nullprefix)
        = Inr (ByRef [6, 0, 0, 0, 97, 98, 0, 0, 5, 0, 0, 0], [0, 0, 0, 0, 0])
   \<and> ComputeDataSize desc_nullprefix val_nullprefix '' n   '' = Inr 20"
  by (simp add: all_defs itup_nullprefix_def)

text \<open>
  Claim C4 (the cached offset is the aligned start). The careful walk of
  \<open>nocache_index_getattr\<close> stores \<^verbatim>\<open>att[i]->attcacheoff = off\<close> before the switch that
  aligns \<^verbatim>\<open>off\<close>. Schema \<^verbatim>\<open>[char, int4, text, int4]\<close>, attribute 4 requested: the index
  accessor leaves offset 1 cached for the \<^verbatim>\<open>int4\<close> attribute, whose aligned start is 4;
  \<open>nocachegetattr\<close> on the row tuple of the same inputs caches 4.
\<close>

theorem index_walk_caches_unaligned_offset:
  "index_formtuple desc_prealign val_prealign ''    '' = Inr itup_prealign
   \<and> map_sum id (map attcacheoff \<circ> snd) (nocache_index_getattr itup_prealign 4 desc_prealign)
        = Inr [0, 1, 8, 0]
   \<and> heap_formtuple desc_prealign val_prealign ''    '' = Inr htup_prealign
   \<and> map_sum id (map attcacheoff \<circ> snd) (nocachegetattr htup_prealign 4 desc_prealign)
        = Inr [0, 4, 8, 0]
   \<and> INTALIGN 1 = 4"
  by (simp add: all_defs)

text \<open>
  Claim C3 (reads are cache-transparent). In the careful walk of
  \<open>nocache_index_getattr\<close> an attribute with a cached offset is passed by \<^verbatim>\<open>continue\<close>
  with \<^verbatim>\<open>off\<close> set to its start, not advanced by its length. Schema
  \<^verbatim>\<open>[int4, int4, text, int4]\<close>, one tuple, attribute 2 read first (which caches its
  offset 4), then attribute 4: the second read returns 25185 where a read with every
  cached offset unset returns the supplied 9. The row tuple accessor returns 9 in the
  same sequence.
\<close>

theorem index_cache_changes_results:
  "index_formtuple desc_seq val_seq ''    '' = Inr itup_seq
   \<and> nocache_index_getattr itup_seq 2 desc_seq = Inr (ByVal 8, desc_seq_cached)
   \<and> map_sum id fst (nocache_index_getattr itup_seq 4 desc_seq_cached) = Inr (ByVal 25185)
   \<and> map_sum id fst (nocache_index_getattr itup_seq 4 desc_seq) = Inr (ByVal 9)
   \<and> index_getattr itup_seq 2 desc_seq = Inr ((ByVal 8, False), desc_seq_cached)
   \<and> map_sum id fst (index_getattr itup_seq 4 desc_seq_cached) = Inr (ByVal 25185, False)
   \<and> map_sum id fst (index_getattr itup_seq 4 desc_seq) = Inr (ByVal 9, False)
   \<and> heap_formtuple desc_seq val_seq ''    '' = Inr htup_seq
   \<and> nocachegetattr htup_seq 2 desc_seq = Inr (ByVal 8, desc_seq_cached)
   \<and> map_sum id fst (nocachegetattr htup_seq 4 desc_seq_cached) = Inr (ByVal 9)"
  by (simp add: all_defs)

subsection \<open>heap_modifytuple\<close>

text \<open>
  Claim C9 (rebuild with replacements). The selectors behave as claimed: \<open>' '\<close> keeps the
  decoded attribute, \<open>'r'\<close> takes the replacement, anything else raises the fatal error,
  and the old tuple's \<^verbatim>\<open>t_oid\<close> is copied forward. The infomask of the newly built tuple
  is carried over the header copy in a \<^verbatim>\<open>uint8\<close> local and loses its high byte: the
  result has mask \<^verbatim>\<open>0x0002\<close> where \<open>heap_formtuple\<close> of the same values gives
  \<^verbatim>\<open>0x0802\<close>.
\<close>

theorem heap_modifytuple_truncates_infomask:
  "heap_formtuple desc_pair val_pair ''  '' = Inr htup_pair
   \<and> map_sum id fst (heap_modifytuple 8192 (htup_pair\<lparr>t_oid := 77\<rparr>) False desc_pair
                       [ByVal 8, ByVal 0] ''  '' ''r '')
        = Inr (htup_pair\<lparr>t_oid := 77, t_infomask := 0x0002,
                           t_data := [8, 0, 0, 0, 6, 0, 0, 0, 97, 98]\<rparr>)
   \<and> map_sum id t_infomask (heap_formtuple desc_pair [ByVal 8, text_ab] ''  '') = Inr 0x0802
   \<and> heap_modifytuple 8192 htup_pair False desc_pair [ByVal 8, ByVal 0] ''  '' ''x '' = Inl ElogError"
  by (simp add: all_defs)

end
